theory Spec2Isabelle
  imports Main "HOL-Library.Sublist"
begin

section \<open>JavaScript strings\<close>

text \<open>
  A JavaScript string is a sequence of UTF-16 code units. All string operations of
  \<^verbatim>\<open>src/index.js\<close> (\<^verbatim>\<open>trim\<close>, \<^verbatim>\<open>split\<close>, \<^verbatim>\<open>indexOf\<close>, the regular expressions, none of
  which carries the \<^verbatim>\<open>u\<close> flag) work on code units, so a string is modelled as the list
  of its code units, each a natural number. \<open>str\<close> turns an ASCII literal into such a
  list.
\<close>

type_synonym jsstring = "nat list"

definition str :: "string \<Rightarrow> jsstring" where
  "str s = map of_char s"

text \<open>The line terminators of ECMAScript: LF, CR, U+2028, U+2029. The regular
  expression atom \<^verbatim>\<open>.\<close> matches every code unit but these.\<close>

definition is_line_terminator :: "nat \<Rightarrow> bool" where
  "is_line_terminator c \<longleftrightarrow> c = 10 \<or> c = 13 \<or> c = 8232 \<or> c = 8233"

text \<open>The class \<^verbatim>\<open>\s\<close>, which is also what \<^verbatim>\<open>trim\<close>, \<^verbatim>\<open>trimEnd\<close> and \<^verbatim>\<open>parseInt\<close> strip:
  the line terminators, TAB, VT, FF, SP, NBSP, U+1680, U+2000..U+200A, U+202F, U+205F,
  U+3000 and U+FEFF.\<close>

definition is_space :: "nat \<Rightarrow> bool" where
  "is_space c \<longleftrightarrow>
     is_line_terminator c \<or> c = 9 \<or> c = 11 \<or> c = 12 \<or> c = 32 \<or> c = 160 \<or> c = 5760 \<or>
     (8192 \<le> c \<and> c \<le> 8202) \<or> c = 8239 \<or> c = 8287 \<or> c = 12288 \<or> c = 65279"

text \<open>The class \<^verbatim>\<open>['"]\<close>.\<close>

definition is_quote :: "nat \<Rightarrow> bool" where
  "is_quote c \<longleftrightarrow> c = 39 \<or> c = 34"

text \<open>The class \<^verbatim>\<open>[0-9]\<close>.\<close>

definition is_digit :: "nat \<Rightarrow> bool" where
  "is_digit c \<longleftrightarrow> 48 \<le> c \<and> c \<le> 57"

text \<open>The class \<^verbatim>\<open>\w\<close>, which decides the word boundary \<^verbatim>\<open>\b\<close>: ASCII letters, digits
  and the underscore.\<close>

definition is_word :: "nat \<Rightarrow> bool" where
  "is_word c \<longleftrightarrow> (65 \<le> c \<and> c \<le> 90) \<or> (97 \<le> c \<and> c \<le> 122) \<or> is_digit c \<or> c = 95"

text \<open>The class \<^verbatim>\<open>[~>=<]\<close>.\<close>

definition is_operator :: "nat \<Rightarrow> bool" where
  "is_operator c \<longleftrightarrow> c = 126 \<or> c = 62 \<or> c = 61 \<or> c = 60"

definition trimStart :: "jsstring \<Rightarrow> jsstring" where
  "trimStart s = dropWhile is_space s"

definition trimEnd :: "jsstring \<Rightarrow> jsstring" where
  "trimEnd s = rev (dropWhile is_space (rev s))"

definition trim :: "jsstring \<Rightarrow> jsstring" where
  "trim s = trimEnd (trimStart s)"

definition startsWith :: "jsstring \<Rightarrow> jsstring \<Rightarrow> bool" where
  "startsWith s p \<longleftrightarrow> take (length p) s = p"

text \<open>\<^verbatim>\<open>s.indexOf(p)\<close>: the first position at which \<open>p\<close> occurs in \<open>s\<close>, or \<open>-1\<close>.\<close>

fun indexOf_from :: "int \<Rightarrow> jsstring \<Rightarrow> jsstring \<Rightarrow> int" where
  "indexOf_from i [] p = (if p = [] then i else -1)"
| "indexOf_from i (c # cs) p =
     (if startsWith (c # cs) p then i else indexOf_from (i + 1) cs p)"

definition indexOf :: "jsstring \<Rightarrow> jsstring \<Rightarrow> int" where
  "indexOf s p = indexOf_from 0 s p"

definition includes_str :: "jsstring \<Rightarrow> jsstring \<Rightarrow> bool" where
  "includes_str s p \<longleftrightarrow> indexOf s p \<noteq> -1"

text \<open>\<^verbatim>\<open>s.split(sep)\<close> for a separator of one code unit: the pieces between the
  separators, never an empty array.\<close>

fun split :: "nat \<Rightarrow> jsstring \<Rightarrow> jsstring list" where
  "split sep [] = [[]]"
| "split sep (c # cs) =
     (if c = sep then [] # split sep cs
      else (case split sep cs of p # ps \<Rightarrow> (c # p) # ps | [] \<Rightarrow> [[c]]))"

text \<open>\<^verbatim>\<open>parts.join(sep)\<close> for a separator of one code unit.\<close>

fun join :: "nat \<Rightarrow> jsstring list \<Rightarrow> jsstring" where
  "join sep [] = []"
| "join sep [p] = p"
| "join sep (p # q # ps) = p @ sep # join sep (q # ps)"

section \<open>Numbers\<close>

text \<open>
  A JavaScript number is a double. The numbers this program compares are results of
  \<^verbatim>\<open>parseInt\<close>: \<^verbatim>\<open>NaN\<close>, an infinity, or a double whose value is an integer. \<open>Integer i\<close>
  is the double of value \<open>i\<close>; \<^verbatim>\<open>-0\<close> and \<^verbatim>\<open>0\<close>, which \<^verbatim>\<open>===\<close> does not tell apart, are
  both \<open>Integer 0\<close>.
\<close>

datatype jsnumber = NaN | Integer int | Infinity | MinusInfinity

text \<open>The number of binary digits of \<open>n\<close>.\<close>

fun bit_length :: "nat \<Rightarrow> nat" where
  "bit_length n = (if n = 0 then 0 else Suc (bit_length (n div 2)))"

declare bit_length.simps [simp del]

text \<open>
  The double nearest to a natural number, a tie going to the even significand. A
  number below \<open>2^53\<close> is a double itself. A larger one keeps its 53 leading binary
  digits, rounded by the digits dropped. The result is \<open>None\<close> when it reaches \<open>2^1024\<close>,
  which is beyond every double: the number is then an infinity.
\<close>

definition round_double :: "nat \<Rightarrow> nat option" where
  "round_double n =
     (if n < 2 ^ 53 then Some n
      else
        let dropped = bit_length n - 53;
            q = n div 2 ^ dropped;
            r = n mod 2 ^ dropped;
            half = 2 ^ (dropped - 1);
            q' = (if r > half then q + 1 else if r = half \<and> odd q then q + 1 else q);
            v = q' * 2 ^ dropped
        in if v \<ge> 2 ^ 1024 then None else Some v)"

definition to_number :: "bool \<Rightarrow> nat \<Rightarrow> jsnumber" where
  "to_number negative n =
     (case round_double n of
        None \<Rightarrow> if negative then MinusInfinity else Infinity
      | Some v \<Rightarrow> Integer (if negative then - int v else int v))"

text \<open>
  \<^verbatim>\<open>parseInt(s)\<close> with no radix: leading white space is skipped, one sign is read, a
  prefix \<^verbatim>\<open>0x\<close> or \<^verbatim>\<open>0X\<close> selects radix 16, and the longest run of digits of the radix is
  read; with no digit the result is \<^verbatim>\<open>NaN\<close>. Otherwise the result is the double nearest
  to the integer the digits write, with the sign. (For more than 20 decimal digits the
  language lets an implementation read the later digits as 0; V8, which runs this
  program, rounds the exact integer, as the model does.)
\<close>

definition digit_value :: "nat \<Rightarrow> nat" where
  "digit_value c =
     (if is_digit c then c - 48
      else if 97 \<le> c \<and> c \<le> 102 then c - 87
      else c - 55)"

definition is_hex_digit :: "nat \<Rightarrow> bool" where
  "is_hex_digit c \<longleftrightarrow> is_digit c \<or> (97 \<le> c \<and> c \<le> 102) \<or> (65 \<le> c \<and> c \<le> 70)"

text \<open>The integer that the digits \<open>ds\<close> write in the radix.\<close>

definition digits_value :: "nat \<Rightarrow> jsstring \<Rightarrow> nat" where
  "digits_value radix ds = foldl (\<lambda>acc c. acc * radix + digit_value c) 0 ds"

definition parse_digits :: "bool \<Rightarrow> jsstring \<Rightarrow> jsnumber" where
  "parse_digits negative s =
     (if startsWith s [48, 120] \<or> startsWith s [48, 88]
      then (let ds = takeWhile is_hex_digit (drop 2 s)
            in if ds = [] then NaN else to_number negative (digits_value 16 ds))
      else (let ds = takeWhile is_digit s
            in if ds = [] then NaN else to_number negative (digits_value 10 ds)))"

definition parseInt :: "jsstring \<Rightarrow> jsnumber" where
  "parseInt s =
     (case trimStart s of
        [] \<Rightarrow> NaN
      | c # cs \<Rightarrow>
          if c = 45 then parse_digits True cs
          else if c = 43 then parse_digits False cs
          else parse_digits False (c # cs))"

text \<open>Strict equality \<^verbatim>\<open>===\<close> of two numbers: \<^verbatim>\<open>NaN\<close> equals nothing, not even itself.\<close>

definition strict_eq :: "jsnumber \<Rightarrow> jsnumber \<Rightarrow> bool" where
  "strict_eq a b \<longleftrightarrow> a \<noteq> NaN \<and> a = b"

text \<open>\<^verbatim>\<open>parseInt(v.split(".")[0])\<close>: the leading component of a version string.\<close>

definition major_of :: "jsstring \<Rightarrow> jsnumber" where
  "major_of v = parseInt (hd (split 46 v))"

section \<open>The registry's answer\<close>

text \<open>
  One element of the array the registry returns. \<open>created_at\<close> is the time value, in
  milliseconds, of \<^verbatim>\<open>new Date(v.created_at)\<close>, and \<open>None\<close> where that is an invalid date.
\<close>

record release =
  number :: jsstring
  prerelease :: bool
  created_at :: "int option"

text \<open>
  What the request of \<^verbatim>\<open>fetchLatestVersionInfo\<close> ends with: the \<^verbatim>\<open>error\<close> event, the
  \<^verbatim>\<open>timeout\<close> event, or a response with its status code and its body. The body is the
  array \<^verbatim>\<open>JSON.parse\<close> returns, and \<open>None\<close> where the \<^verbatim>\<open>try\<close> block throws on the body
  (not JSON, not an array of such objects).
\<close>

datatype http_outcome =
    RequestError
  | RequestTimeout
  | Response nat "release list option"

record version_info =
  latest :: jsstring
  majorReleaseDate :: "int option"

text \<open>
  The body of the \<^verbatim>\<open>end\<close> handler. When no stable version has the major number of the
  first one (which takes that number to be \<^verbatim>\<open>NaN\<close>), \<^verbatim>\<open>majorVersions\<close> is empty, reading
  \<^verbatim>\<open>created_at\<close> of its last element throws, and the \<^verbatim>\<open>catch\<close> resolves \<^verbatim>\<open>null\<close>.
\<close>

definition stable_info :: "release list \<Rightarrow> version_info option" where
  "stable_info versions =
     (let stableVersions = filter (\<lambda>v. \<not> prerelease v) versions
      in case stableVersions of
           [] \<Rightarrow> None
         | latest' # _ \<Rightarrow>
             let latestVersion = number latest';
                 majorVersion = major_of latestVersion;
                 majorVersions = filter (\<lambda>v. strict_eq (major_of (number v)) majorVersion)
                                   stableVersions
             in if majorVersions = [] then None
                else Some \<lparr>latest = latestVersion,
                           majorReleaseDate = created_at (last majorVersions)\<rparr>)"

definition fetchLatestVersionInfo :: "http_outcome \<Rightarrow> version_info option" where
  "fetchLatestVersionInfo outcome =
     (case outcome of
        RequestError \<Rightarrow> None
      | RequestTimeout \<Rightarrow> None
      | Response statusCode body \<Rightarrow>
          if statusCode \<noteq> 200 then None
          else (case body of None \<Rightarrow> None | Some versions \<Rightarrow> stable_info versions))"

section \<open>The version resolver\<close>

definition MAJOR_VERSION_AGE_THRESHOLD :: int where
  "MAJOR_VERSION_AGE_THRESHOLD = 180"

text \<open>\<^verbatim>\<open>Math.floor((today - majorReleaseDate) / (1000 * 60 * 60 * 24))\<close>, which is \<^verbatim>\<open>NaN\<close>
  for an invalid date.\<close>

definition daysSince :: "int \<Rightarrow> int option \<Rightarrow> int option" where
  "daysSince today d = map_option (\<lambda>t. (today - t) div (1000 * 60 * 60 * 24)) d"

text \<open>
  \<open>currentVersion\<close> is \<open>None\<close> for \<^verbatim>\<open>null\<close>; \<^verbatim>\<open>!currentVersion\<close> also holds for the empty
  string. A comparison with \<^verbatim>\<open>NaN\<close> is false.
\<close>

definition determineTargetVersion ::
  "int \<Rightarrow> jsstring option \<Rightarrow> jsstring \<Rightarrow> int option \<Rightarrow> jsstring" where
  "determineTargetVersion today currentVersion latestVersion releaseDate =
     (let daysSinceMajorRelease = daysSince today releaseDate
      in case currentVersion of
           None \<Rightarrow> latestVersion
         | Some cv \<Rightarrow>
             if cv = [] then latestVersion
             else
               let currentParts = map parseInt (split 46 cv);
                   latestParts = map parseInt (split 46 latestVersion);
                   currentMajor = hd currentParts;
                   latestMajor = hd latestParts
               in if strict_eq currentMajor latestMajor then latestVersion
                  else if (case daysSinceMajorRelease of
                             None \<Rightarrow> False
                           | Some n \<Rightarrow> n \<ge> MAJOR_VERSION_AGE_THRESHOLD)
                       then latestVersion
                       else cv)"

section \<open>Regular expressions\<close>

text \<open>
  The regular expressions of \<^verbatim>\<open>src/index.js\<close> use literal code units, classes, the
  greedy \<^verbatim>\<open>*\<close> and \<^verbatim>\<open>+\<close> on a class, greedy optional groups, alternatives, capture groups,
  \<^verbatim>\<open>\b\<close> and \<^verbatim>\<open>^\<close>. \<open>re\<close> is the syntax of this fragment: \<open>Star P\<close> is a class followed by
  \<^verbatim>\<open>*\<close>, \<open>Opt r\<close> is \<^verbatim>\<open>(?:r)?\<close>, \<open>Cap i r\<close> is the capture group number \<open>i\<close>.
\<close>

datatype re =
    Epsilon
  | Chars "nat \<Rightarrow> bool"
  | Star "nat \<Rightarrow> bool"
  | Seq re re
  | Alt re re
  | Opt re
  | Cap nat re
  | WordBoundary
  | LineStart

text \<open>A literal string, and a class followed by \<^verbatim>\<open>+\<close>.\<close>

fun lit :: "jsstring \<Rightarrow> re" where
  "lit [] = Epsilon"
| "lit (c # cs) = Seq (Chars (\<lambda>x. x = c)) (lit cs)"

definition plus_re :: "(nat \<Rightarrow> bool) \<Rightarrow> re" where
  "plus_re P = Seq (Chars P) (Star P)"

text \<open>
  The matcher is the backtracking one of ECMAScript, in continuation-passing style. Its
  state is the code unit before the current position (\<open>None\<close> at the start of the
  input), the input from the current position on, and the captures so far; a capture
  that took no part is \<open>None\<close> (\<^verbatim>\<open>undefined\<close>). \<open>matcher r st k\<close> tries the ways \<open>r\<close> can
  match at \<open>st\<close> in the order of the language, hands the state after each to the
  continuation \<open>k\<close>, and returns the first result that is not a failure (\<open>None\<close>): a
  greedy \<open>Star\<close> tries the longest run first, \<open>Alt\<close> its left side first, \<open>Opt\<close> the
  group before its absence, and an optional group that would match the empty string is
  refused, as the language has it.
\<close>

type_synonym captures = "nat \<Rightarrow> jsstring option"

type_synonym mstate = "nat option \<times> jsstring \<times> captures"

definition word_before :: "nat option \<Rightarrow> bool" where
  "word_before prev = (case prev of None \<Rightarrow> False | Some c \<Rightarrow> is_word c)"

definition word_after :: "jsstring \<Rightarrow> bool" where
  "word_after s = (case s of [] \<Rightarrow> False | c # _ \<Rightarrow> is_word c)"

fun star_matcher ::
  "(nat \<Rightarrow> bool) \<Rightarrow> nat option \<Rightarrow> jsstring \<Rightarrow> captures \<Rightarrow> (mstate \<Rightarrow> 'a option) \<Rightarrow> 'a option"
where
  "star_matcher P prev [] caps k = k (prev, [], caps)"
| "star_matcher P prev (c # cs) caps k =
     (if P c
      then (case star_matcher P (Some c) cs caps k of
              Some r \<Rightarrow> Some r
            | None \<Rightarrow> k (prev, c # cs, caps))
      else k (prev, c # cs, caps))"

fun matcher :: "re \<Rightarrow> mstate \<Rightarrow> (mstate \<Rightarrow> 'a option) \<Rightarrow> 'a option" where
  "matcher Epsilon st k = k st"
| "matcher (Chars P) (prev, s, caps) k =
     (case s of [] \<Rightarrow> None | c # cs \<Rightarrow> if P c then k (Some c, cs, caps) else None)"
| "matcher (Star P) (prev, s, caps) k = star_matcher P prev s caps k"
| "matcher (Seq a b) st k = matcher a st (\<lambda>st'. matcher b st' k)"
| "matcher (Alt a b) st k =
     (case matcher a st k of Some r \<Rightarrow> Some r | None \<Rightarrow> matcher b st k)"
| "matcher (Opt a) (prev, s, caps) k =
     (case matcher a (prev, s, caps)
             (\<lambda>(prev', s', caps').
                 if length s' = length s then None else k (prev', s', caps')) of
        Some r \<Rightarrow> Some r
      | None \<Rightarrow> k (prev, s, caps))"
| "matcher (Cap i a) (prev, s, caps) k =
     matcher a (prev, s, caps)
       (\<lambda>(prev', s', caps').
           k (prev', s', caps'(i := Some (take (length s - length s') s))))"
| "matcher WordBoundary (prev, s, caps) k =
     (if word_before prev \<noteq> word_after s then k (prev, s, caps) else None)"
| "matcher LineStart (prev, s, caps) k = (if prev = None then k (prev, s, caps) else None)"

text \<open>
  \<^verbatim>\<open>s.match(re)\<close> for an expression without the \<^verbatim>\<open>g\<close> flag: the expression is tried at
  index 0, then 1, and so on up to the length of the string; the result is the index of
  the first match and its captures, capture 0 being the matched text, or \<open>None\<close>
  (\<^verbatim>\<open>null\<close>). \<^verbatim>\<open>re.test(s)\<close> tells whether there is a match, and \<^verbatim>\<open>s.replace(re, "")\<close>
  cuts the first match out.
\<close>

fun exec_from :: "re \<Rightarrow> nat \<Rightarrow> nat option \<Rightarrow> jsstring \<Rightarrow> (nat \<times> captures) option" where
  "exec_from r i prev [] =
     matcher (Cap 0 r) (prev, [], \<lambda>_. None) (\<lambda>(_, _, caps). Some (i, caps))"
| "exec_from r i prev (c # cs) =
     (case matcher (Cap 0 r) (prev, c # cs, \<lambda>_. None) (\<lambda>(_, _, caps). Some (i, caps)) of
        Some found \<Rightarrow> Some found
      | None \<Rightarrow> exec_from r (i + 1) (Some c) cs)"

definition exec :: "re \<Rightarrow> jsstring \<Rightarrow> (nat \<times> captures) option" where
  "exec r s = exec_from r 0 None s"

definition test :: "re \<Rightarrow> jsstring \<Rightarrow> bool" where
  "test r s \<longleftrightarrow> exec r s \<noteq> None"

definition replace_first :: "re \<Rightarrow> jsstring \<Rightarrow> jsstring" where
  "replace_first r s =
     (case exec r s of
        None \<Rightarrow> s
      | Some (i, caps) \<Rightarrow>
          (case caps 0 of
             None \<Rightarrow> s
           | Some matched \<Rightarrow> take i s @ drop (i + length matched) s))"

subsection \<open>The expressions of the source\<close>

text \<open>\<^verbatim>\<open>/\b(git:|github:|path:|source:)/\<close>\<close>

definition alt_source_re :: re where
  "alt_source_re =
     Seq WordBoundary
       (Cap 1 (Alt (lit (str ''git:''))
              (Alt (lit (str ''github:''))
              (Alt (lit (str ''path:'')) (lit (str ''source:''))))))"

text \<open>\<^verbatim>\<open>/gem\s+['"]([^'"]+)['"]/\<close>\<close>

definition gem_name_re :: re where
  "gem_name_re =
     Seq (lit (str ''gem''))
    (Seq (plus_re is_space)
    (Seq (Chars is_quote)
    (Seq (Cap 1 (plus_re (\<lambda>c. \<not> is_quote c)))
         (Chars is_quote))))"

text \<open>\<^verbatim>\<open>/['"],\s*['"]([~>=<]*\s*)?([0-9]+\.[0-9]+(?:\.[0-9]+)?(?:\.[0-9]+)?)['"]/\<close>\<close>

definition dot_number_re :: re where
  "dot_number_re = Seq (Chars (\<lambda>c. c = 46)) (plus_re is_digit)"

definition version_re :: re where
  "version_re =
     Seq (Chars is_quote)
    (Seq (Chars (\<lambda>c. c = 44))
    (Seq (Star is_space)
    (Seq (Chars is_quote)
    (Seq (Opt (Cap 1 (Seq (Star is_operator) (Star is_space))))
    (Seq (Cap 2 (Seq (plus_re is_digit)
                (Seq dot_number_re
                (Seq (Opt dot_number_re) (Opt dot_number_re)))))
         (Chars is_quote))))))"

text \<open>\<^verbatim>\<open>/^\s*/\<close>\<close>

definition indent_re :: re where
  "indent_re = Seq LineStart (Star is_space)"

text \<open>
  \<^verbatim>\<open>new RegExp(`gem\\s+['"]${gemName.replace(/[.*+?^${}()|[\]\\]/g, "\\$&")}['"]\\s*(.*)`)\<close>.
  The inner \<^verbatim>\<open>replace\<close> puts a backslash before every syntax character of the name, so
  in the expression the name stands for itself, code unit by code unit. The atom \<^verbatim>\<open>.\<close>
  is every code unit but the line terminators.
\<close>

definition after_name_re :: "jsstring \<Rightarrow> re" where
  "after_name_re gemName =
     Seq (lit (str ''gem''))
    (Seq (plus_re is_space)
    (Seq (Chars is_quote)
    (Seq (lit gemName)
    (Seq (Chars is_quote)
    (Seq (Star is_space)
         (Cap 1 (Star (\<lambda>c. \<not> is_line_terminator c))))))))"

text \<open>\<^verbatim>\<open>/^,\s*['"][^'"]*['"]/\<close>\<close>

definition constraint_re :: re where
  "constraint_re =
     Seq LineStart
    (Seq (Chars (\<lambda>c. c = 44))
    (Seq (Star is_space)
    (Seq (Chars is_quote)
    (Seq (Star (\<lambda>c. \<not> is_quote c))
         (Chars is_quote)))))"

section \<open>The line parser\<close>

text \<open>
  \<open>gemName\<close> and \<open>currentVersion\<close> are \<open>None\<close> for \<^verbatim>\<open>null\<close> (and for a capture that is
  \<^verbatim>\<open>undefined\<close>, which the callers treat alike).
\<close>

record gem_line =
  gemName :: "jsstring option"
  currentVersion :: "jsstring option"
  hasAltSource :: bool

definition parseGemLine :: "jsstring \<Rightarrow> gem_line" where
  "parseGemLine line =
     (let alt = test alt_source_re line
      in case exec gem_name_re line of
           None \<Rightarrow> \<lparr>gemName = None, currentVersion = None, hasAltSource = False\<rparr>
         | Some (_, match) \<Rightarrow>
             \<lparr>gemName = match 1,
              currentVersion =
                (case exec version_re line of
                   None \<Rightarrow> None
                 | Some (_, versionMatch) \<Rightarrow> versionMatch 2),
              hasAltSource = alt\<rparr>)"

section \<open>The line rebuilder\<close>

text \<open>
  \<^verbatim>\<open>originalLine.match(/^\s*/)[0]\<close> would throw on \<^verbatim>\<open>null\<close>, and \<^verbatim>\<open>afterGemMatch[1]\<close> could
  be \<^verbatim>\<open>undefined\<close>; neither happens (lemmas \<open>exec_indent\<close> and \<open>exec_after_name\<close>), and
  the model puts the empty string there.
\<close>

definition buildGemLine :: "jsstring \<Rightarrow> jsstring \<Rightarrow> jsstring \<Rightarrow> jsstring" where
  "buildGemLine originalLine name version =
     (let indent = (case exec indent_re originalLine of
                      Some (_, match) \<Rightarrow> (case match 0 of Some text \<Rightarrow> text | None \<Rightarrow> [])
                    | None \<Rightarrow> []);
          quote = (if includes_str originalLine ([39] @ name @ [39]) then 39 else 34);
          afterGem = (case exec (after_name_re name) originalLine of
                        Some (_, afterGemMatch) \<Rightarrow>
                          (case afterGemMatch 1 of Some text \<Rightarrow> text | None \<Rightarrow> [])
                      | None \<Rightarrow> []);
          afterGem = replace_first constraint_re afterGem;
          newLine = indent @ str ''gem '' @ [quote] @ name @ [quote] @ str '', '' @
                    [quote] @ str ''~> '' @ version @ [quote]
      in if length (trim afterGem) > 0 then newLine @ trimEnd afterGem else newLine)"

section \<open>The orchestrator\<close>

text \<open>
  \<^verbatim>\<open>update\<close> talks to the world twice for a line it rewrites: the request to the
  registry, and \<^verbatim>\<open>new Date()\<close> in \<^verbatim>\<open>determineTargetVersion\<close>. The world is a state
  \<open>'w\<close> that both take and return, so that neither has to answer the same way twice.
  What \<^verbatim>\<open>update\<close> prints is left out.
\<close>

record 'w world =
  request :: "'w \<Rightarrow> jsstring \<Rightarrow> http_outcome \<times> 'w"
  clock :: "'w \<Rightarrow> int \<times> 'w"

text \<open>The test at the head of the loop body: the line is a declaration.\<close>

definition is_gem_line :: "jsstring \<Rightarrow> bool" where
  "is_gem_line line \<longleftrightarrow>
     startsWith (trim line) (str ''gem '') \<and>
     \<not> (includes_str line [35] \<and> indexOf line [35] < indexOf line (str ''gem''))"

text \<open>The loop body: the line pushed to \<^verbatim>\<open>updatedLines\<close>, and the world after it.\<close>

definition update_line :: "'w world \<Rightarrow> 'w \<Rightarrow> jsstring \<Rightarrow> jsstring \<times> 'w" where
  "update_line env w line =
     (if is_gem_line line
      then
        let p = parseGemLine line
        in (case gemName p of
              None \<Rightarrow> (line, w)
            | Some name \<Rightarrow>
                if name \<noteq> [] \<and> \<not> hasAltSource p
                then
                  (case request env w name of
                     (outcome, w1) \<Rightarrow>
                       (case fetchLatestVersionInfo outcome of
                          None \<Rightarrow> (line, w1)
                        | Some latestInfo \<Rightarrow>
                            (case clock env w1 of
                               (today, w2) \<Rightarrow>
                                 (buildGemLine line name
                                    (determineTargetVersion today (currentVersion p)
                                       (latest latestInfo) (majorReleaseDate latestInfo)),
                                  w2))))
                else (line, w))
      else (line, w))"

fun update_lines :: "'w world \<Rightarrow> 'w \<Rightarrow> jsstring list \<Rightarrow> jsstring list \<times> 'w" where
  "update_lines env w [] = ([], w)"
| "update_lines env w (line # lines) =
     (case update_line env w line of
        (newLine, w1) \<Rightarrow>
          (case update_lines env w1 lines of
             (updatedLines, w2) \<Rightarrow> (newLine # updatedLines, w2)))"

text \<open>\<^verbatim>\<open>update\<close>: the content written back to the file, and the world after the run.\<close>

definition update :: "'w world \<Rightarrow> 'w \<Rightarrow> jsstring \<Rightarrow> jsstring \<times> 'w" where
  "update env w gemfileContent =
     (case update_lines env w (split 10 gemfileContent) of
        (updatedLines, w') \<Rightarrow> (join 10 updatedLines, w'))"

section \<open>What the expressions compute\<close>

text \<open>
  Each expression of the source matches in one way only at a given index. The functions
  of this section compute that match directly; the lemmas of the section on the
  expressions below prove that they agree with the backtracking matcher.
  \<open>first_match f s\<close> tries \<open>f\<close> at index 0, then 1, and so on up to the length of \<open>s\<close>.
\<close>

fun first_match :: "(jsstring \<Rightarrow> 'a option) \<Rightarrow> jsstring \<Rightarrow> 'a option" where
  "first_match m [] = m []"
| "first_match m (c # cs) =
     (case m (c # cs) of Some r \<Rightarrow> Some r | None \<Rightarrow> first_match m cs)"

text \<open>
  \<^verbatim>\<open>/gem\s+['"]([^'"]+)['"]/\<close> tried at the start of \<open>s\<close>; the result is capture 1.
  A quote is no white space, so the greedy \<^verbatim>\<open>\s+\<close> can only end where the white space
  ends; the greedy \<^verbatim>\<open>[^'"]+\<close> is followed by a quote, so it ends at the first quote.
\<close>

definition gem_name_at :: "jsstring \<Rightarrow> jsstring option" where
  "gem_name_at s =
     (if \<not> startsWith s (str ''gem'') then None
      else
        let s1 = drop 3 s
        in if takeWhile is_space s1 = [] then None
           else (case dropWhile is_space s1 of
                   [] \<Rightarrow> None
                 | q # s2 \<Rightarrow>
                     if \<not> is_quote q then None
                     else
                       let name = takeWhile (\<lambda>c. \<not> is_quote c) s2
                       in if name = [] then None
                          else (case dropWhile (\<lambda>c. \<not> is_quote c) s2 of
                                  [] \<Rightarrow> None
                                | _ # _ \<Rightarrow> Some name)))"

text \<open>
  \<^verbatim>\<open>/\b(git:|github:|path:|source:)/.test(line)\<close>. Every alternative starts with a word
  character, so \<^verbatim>\<open>\b\<close> holds at a position exactly when the code unit before it is no
  word character (or there is none); \<open>prev_word\<close> tells whether it is one.
\<close>

definition alt_source_markers :: "jsstring list" where
  "alt_source_markers = [str ''git:'', str ''github:'', str ''path:'', str ''source:'']"

fun alt_source_from :: "bool \<Rightarrow> jsstring \<Rightarrow> bool" where
  "alt_source_from prev_word [] = False"
| "alt_source_from prev_word (c # cs) =
     (if prev_word \<noteq> is_word c \<and> list_ex (startsWith (c # cs)) alt_source_markers
      then True
      else alt_source_from (is_word c) cs)"

text \<open>
  An optional group \<^verbatim>\<open>(?:\.[0-9]+)?\<close> at the start of \<open>s\<close>: the number of code units
  it takes, 0 when the group does not match.
\<close>

definition dot_digits :: "jsstring \<Rightarrow> nat" where
  "dot_digits s =
     (case s of
        [] \<Rightarrow> 0
      | c # cs \<Rightarrow>
          if c = 46 \<and> takeWhile is_digit cs \<noteq> [] then 1 + length (takeWhile is_digit cs)
          else 0)"

text \<open>
  \<^verbatim>\<open>([0-9]+\.[0-9]+(?:\.[0-9]+)?(?:\.[0-9]+)?)['"]\<close> at the start of \<open>s\<close>; the result is
  the capture. Each run of digits is followed by a dot or a quote, so it is the longest
  one, and an optional group that can match must match: what follows it otherwise is a
  dot, where a quote is needed.
\<close>

definition version_number_at :: "jsstring \<Rightarrow> jsstring option" where
  "version_number_at s =
     (let d1 = takeWhile is_digit s
      in if d1 = [] then None
         else (case dropWhile is_digit s of
                 [] \<Rightarrow> None
               | dot # s2 \<Rightarrow>
                   if dot \<noteq> 46 then None
                   else
                     let d2 = takeWhile is_digit s2;
                         s3 = dropWhile is_digit s2
                     in if d2 = [] then None
                        else
                          let n3 = dot_digits s3;
                              s4 = drop n3 s3;
                              n4 = dot_digits s4
                          in (case drop n4 s4 of
                                [] \<Rightarrow> None
                              | q # _ \<Rightarrow>
                                  if is_quote q
                                  then Some (d1 @ [46] @ d2 @ take n3 s3 @ take n4 s4)
                                  else None)))"

text \<open>
  \<^verbatim>\<open>/['"],\s*['"]([~>=<]*\s*)?([0-9]+\.[0-9]+(?:\.[0-9]+)?(?:\.[0-9]+)?)['"]/\<close> tried at the
  start of \<open>s\<close>; the result is capture 2. The operators and the white space of capture 1
  are followed by a digit, so both runs are the longest ones.
\<close>

definition version_at :: "jsstring \<Rightarrow> jsstring option" where
  "version_at s =
     (case s of
        q1 # comma # s1 \<Rightarrow>
          if is_quote q1 \<and> comma = 44
          then (case dropWhile is_space s1 of
                  [] \<Rightarrow> None
                | q2 # s2 \<Rightarrow>
                    if is_quote q2
                    then version_number_at (dropWhile is_space (dropWhile is_operator s2))
                    else None)
          else None
      | _ \<Rightarrow> None)"

text \<open>
  \<^verbatim>\<open>new RegExp(`gem\\s+['"]${escaped gemName}['"]\\s*(.*)`)\<close> tried at the start of \<open>s\<close>;
  the result is capture 1. Every syntax character of the name is escaped, so the name
  matches itself and nothing else. \<^verbatim>\<open>\s*\<close> takes all the white space, line terminators
  too, and \<^verbatim>\<open>.*\<close> stops at the first line terminator after it.
\<close>

definition after_name_at :: "jsstring \<Rightarrow> jsstring \<Rightarrow> jsstring option" where
  "after_name_at name s =
     (if \<not> startsWith s (str ''gem'') then None
      else
        let s1 = drop 3 s
        in if takeWhile is_space s1 = [] then None
           else (case dropWhile is_space s1 of
                   [] \<Rightarrow> None
                 | q # s2 \<Rightarrow>
                     if is_quote q \<and> startsWith s2 name
                     then (case drop (length name) s2 of
                             [] \<Rightarrow> None
                           | q' # s3 \<Rightarrow>
                               if is_quote q'
                               then Some (takeWhile (\<lambda>c. \<not> is_line_terminator c)
                                            (dropWhile is_space s3))
                               else None)
                     else None))"

text \<open>\<^verbatim>\<open>afterGem.replace(/^,\s*['"][^'"]*['"]/, "")\<close>: the string without that token at
  its start, or the string itself.\<close>

definition strip_constraint :: "jsstring \<Rightarrow> jsstring" where
  "strip_constraint s =
     (case s of
        [] \<Rightarrow> s
      | c # s1 \<Rightarrow>
          if c \<noteq> 44 then s
          else (case dropWhile is_space s1 of
                  [] \<Rightarrow> s
                | q # s2 \<Rightarrow>
                    if \<not> is_quote q then s
                    else (case dropWhile (\<lambda>c. \<not> is_quote c) s2 of
                            [] \<Rightarrow> s
                          | _ # s3 \<Rightarrow> s3)))"

text \<open>
  Two notions the proofs about the matcher use: the code unit before the position
  reached after reading \<open>xs\<close>, and the continuation that ends capture 2 of the version
  expression and asks for the closing quote.
\<close>

definition last_of :: "nat option \<Rightarrow> jsstring \<Rightarrow> nat option" where
  "last_of prev xs = (if xs = [] then prev else Some (last xs))"

definition quote_next :: "jsstring \<Rightarrow> jsstring \<Rightarrow> jsstring option option" where
  "quote_next s s' =
     (case s' of
        [] \<Rightarrow> None
      | q # t \<Rightarrow> if is_quote q then Some (Some (take (length s - length s') s)) else None)"

section \<open>The specification's release date of a major line\<close>

text \<open>
  The specification's leading component of a version number, a dotted numeric string:
  the integer that the first of the components separated by dots writes. \<open>None\<close> where
  that component is not a run of decimal digits, which the specification's data model
  leaves out.
\<close>

definition spec_leading_component :: "jsstring \<Rightarrow> nat option" where
  "spec_leading_component v =
     (let part = hd (split 46 v)
      in if part \<noteq> [] \<and> list_all is_digit part then Some (digits_value 10 part) else None)"

text \<open>
  The specification's wording of the date the staleness check uses: the earliest
  \<open>created_at\<close> among the non-prerelease records whose leading component equals that
  of the newest one. Records with an invalid date are left out; \<open>None\<close> when nothing is
  left.
\<close>

definition spec_majorReleaseDate :: "release list \<Rightarrow> int option" where
  "spec_majorReleaseDate history =
     (case filter (\<lambda>v. \<not> prerelease v) history of
        [] \<Rightarrow> None
      | newest # rest \<Rightarrow>
          (case List.map_filter created_at
                  (filter (\<lambda>v. spec_leading_component (number v) =
                                spec_leading_component (number newest))
                     (newest # rest)) of
             [] \<Rightarrow> None
           | t # ts \<Rightarrow> Some (Min (set (t # ts)))))"

section \<open>Properties of the resolver\<close>

lemma split_not_Nil: "split sep s \<noteq> []"
  by (induction s) (auto split: list.splits)

lemma hd_map_split: "hd (map f (split sep s)) = f (hd (split sep s))"
  using split_not_Nil [of sep s] by (simp add: hd_map)

lemmas number_eval =
  major_of_def str_def parseInt_def trimStart_def is_space_def is_line_terminator_def
  parse_digits_def startsWith_def is_digit_def digits_value_def digit_value_def
  to_number_def round_double_def bit_length.simps

lemmas spec_eval =
  spec_leading_component_def str_def is_digit_def digits_value_def digit_value_def

lemma major_of_examples:
  "major_of (str ''2.9.0'') = Integer 2"
  "major_of (str ''2.3.0'') = Integer 2"
  "major_of (str ''2.9.1'') = Integer 2"
  "major_of (str ''3.0.0'') = Integer 3"
  "major_of (str ''3.1.0'') = Integer 3"
  by (simp_all add: number_eval)

lemma spec_leading_component_examples:
  "spec_leading_component (str ''2.9.0'') = Some 2"
  "spec_leading_component (str ''3.0.0'') = Some 3"
  "spec_leading_component (str ''3.1.0'') = Some 3"
  by (simp_all add: spec_eval)

lemma days_threshold:
  "MAJOR_VERSION_AGE_THRESHOLD \<le> (today - d) div 86400000 \<longleftrightarrow>
   15552000000 \<le> today - (d::int)"
  unfolding MAJOR_VERSION_AGE_THRESHOLD_def by linarith

lemma determine_unpinned: "determineTargetVersion today None lv d = lv"
  by (simp add: determineTargetVersion_def)

lemma determine_pinned:
  "cv \<noteq> [] \<Longrightarrow>
   determineTargetVersion today (Some cv) lv d =
     (if strict_eq (major_of cv) (major_of lv) then lv
      else if (case d of None \<Rightarrow> False | Some t \<Rightarrow> 180 * 86400000 \<le> today - t) then lv
      else cv)"
  by (cases d) (simp_all add: determineTargetVersion_def Let_def hd_map_split major_of_def
        daysSince_def days_threshold)

lemma determine_same_major:
  "strict_eq (major_of cv) (major_of lv) \<Longrightarrow>
   determineTargetVersion today (Some cv) lv d = lv"
  by (cases "cv = []") (simp_all add: determine_pinned, simp add: determineTargetVersion_def)

lemma stable_info_Cons:
  assumes "filter (\<lambda>v. \<not> prerelease v) history = l # rest"
  shows "stable_info history =
           (let majorVersions =
                  filter (\<lambda>v. strict_eq (major_of (number v)) (major_of (number l))) (l # rest)
            in if majorVersions = [] then None
               else Some \<lparr>latest = number l,
                          majorReleaseDate = created_at (last majorVersions)\<rparr>)"
  using assms by (simp add: stable_info_def Let_def)

lemma stable_info_defined:
  assumes "filter (\<lambda>v. \<not> prerelease v) history = l # rest"
    and "major_of (number l) \<noteq> NaN"
  shows "stable_info history =
           Some \<lparr>latest = number l,
                 majorReleaseDate = created_at (last (filter
                    (\<lambda>v. strict_eq (major_of (number v)) (major_of (number l))) (l # rest)))\<rparr>"
  using assms(2) by (simp add: stable_info_Cons [OF assms(1)] Let_def strict_eq_def)

lemma sorted_desc_Min:
  "sorted_wrt (\<lambda>a b. b \<le> a) ts \<Longrightarrow> ts \<noteq> [] \<Longrightarrow> Min (set ts) = last (ts :: int list)"
proof (induction ts)
  case Nil
  then show ?case by simp
next
  case (Cons t ts)
  show ?case
  proof (cases "ts = []")
    case True
    then show ?thesis by simp
  next
    case False
    with Cons have "Min (set ts) = last ts" by simp
    moreover have "last ts \<le> t" using Cons.prems(1) False by simp
    ultimately show ?thesis using False by (simp add: min_def)
  qed
qed

lemma map_filter_Some: "map f xs = map Some ts \<Longrightarrow> List.map_filter f xs = ts"
  by (induction xs arbitrary: ts) (auto simp: List.map_filter_simps)

text \<open>
  The leading component of a dotted numeric version, a run of digits that is not empty,
  is a number for \<^verbatim>\<open>parseInt\<close>.
\<close>

lemma hd_split: "hd (split sep v) = takeWhile (\<lambda>c. c \<noteq> sep) v"
  by (induction v) (auto split: list.splits simp: split_not_Nil)

lemma parseInt_digits:
  assumes "part \<noteq> []" and "\<forall>c\<in>set part. is_digit c"
  shows "parseInt part = to_number False (digits_value 10 part)"
proof -
  obtain c cs where part: "part = c # cs" using assms(1) by (cases part) auto
  have c: "is_digit c" using assms(2) part by simp
  then have ns: "\<not> is_space c" and sign: "c \<noteq> 45" "c \<noteq> 43"
    by (auto simp: is_digit_def is_space_def is_line_terminator_def)
  have nothex: "\<not> startsWith part [48, 120]" "\<not> startsWith part [48, 88]"
    using assms(2) part by (cases cs; auto simp: startsWith_def is_digit_def)+
  have tw: "takeWhile is_digit part = part" using assms(2) by (simp add: takeWhile_eq_all_conv)
  have "parseInt part = parse_digits False part"
    using ns sign by (simp add: parseInt_def trimStart_def part)
  also have "\<dots> = to_number False (digits_value 10 part)"
    using nothex assms(1) by (simp add: parse_digits_def tw)
  finally show ?thesis .
qed

lemma major_of_numeric:
  assumes "takeWhile (\<lambda>c. c \<noteq> 46) v \<noteq> []"
    and "\<forall>c\<in>set (takeWhile (\<lambda>c. c \<noteq> 46) v). is_digit c"
  shows "major_of v \<noteq> NaN"
  using parseInt_digits [OF assms]
  by (simp add: major_of_def hd_split to_number_def split: option.splits)

text \<open>
  Below \<open>2^53\<close> every integer is a double: there \<^verbatim>\<open>parseInt\<close> reads a leading component
  exactly, and \<^verbatim>\<open>===\<close> on the numbers read is equality of the integers written. From
  \<open>2^53\<close> on, neighbouring integers are read as one double.
\<close>

lemma round_double_exact: "n < 2 ^ 53 \<Longrightarrow> round_double n = Some n"
  by (simp add: round_double_def)

lemma major_of_exact:
  assumes "spec_leading_component v = Some n" and "n < 2 ^ 53"
  shows "major_of v = Integer (int n)"
proof -
  define part where "part = hd (split 46 v)"
  have part: "part \<noteq> []" "\<forall>c\<in>set part. is_digit c" and n: "n = digits_value 10 part"
    using assms(1)
    by (auto simp: spec_leading_component_def Let_def part_def list_all_iff split: if_splits)
  have "major_of v = to_number False (digits_value 10 part)"
    using parseInt_digits [OF part] by (simp add: major_of_def part_def)
  then show ?thesis using assms(2) by (simp add: to_number_def round_double_exact n)
qed

lemma strict_eq_exact:
  assumes "spec_leading_component a = Some m" and "m < 2 ^ 53"
    and "spec_leading_component b = Some n" and "n < 2 ^ 53"
  shows "strict_eq (major_of a) (major_of b) \<longleftrightarrow> m = n"
  by (simp add: strict_eq_def major_of_exact [OF assms(1,2)] major_of_exact [OF assms(3,4)])

lemma major_line_exact:
  assumes "\<forall>v\<in>set vs. \<exists>n<2 ^ 53. spec_leading_component (number v) = Some n"
    and "l \<in> set vs"
  shows "filter (\<lambda>v. strict_eq (major_of (number v)) (major_of (number l))) vs =
         filter (\<lambda>v. spec_leading_component (number v) = spec_leading_component (number l)) vs"
proof (rule filter_cong [OF refl])
  fix v assume v: "v \<in> set vs"
  obtain m where m: "m < 2 ^ 53" "spec_leading_component (number v) = Some m"
    using assms(1) v by blast
  obtain n where n: "n < 2 ^ 53" "spec_leading_component (number l) = Some n"
    using assms by blast
  show "strict_eq (major_of (number v)) (major_of (number l)) \<longleftrightarrow>
        spec_leading_component (number v) = spec_leading_component (number l)"
    using strict_eq_exact [OF m(2,1) n(2,1)] by (simp add: m n)
qed

text \<open>
  The bound is needed. With \<open>9007199254740993.0\<close> listed before \<open>9007199254740992.0\<close>,
  the leading components \<open>2^53 + 1\<close> and \<open>2^53\<close> differ, and the code, which reads
  both as the double \<open>2^53\<close>, takes the two records for one major line.
\<close>

lemma major_line_same_double:
  "stable_info
     [\<lparr>number = str ''9007199254740993.0'', prerelease = False, created_at = Some 200\<rparr>,
      \<lparr>number = str ''9007199254740992.0'', prerelease = False, created_at = Some 100\<rparr>] =
   Some \<lparr>latest = str ''9007199254740993.0'', majorReleaseDate = Some 100\<rparr> \<and>
   spec_majorReleaseDate
     [\<lparr>number = str ''9007199254740993.0'', prerelease = False, created_at = Some 200\<rparr>,
      \<lparr>number = str ''9007199254740992.0'', prerelease = False, created_at = Some 100\<rparr>] =
   Some 200"
proof -
  have code: "major_of (str ''9007199254740993.0'') = Integer (2 ^ 53)"
    "major_of (str ''9007199254740992.0'') = Integer (2 ^ 53)"
    by (simp_all add: number_eval)
  have spec: "spec_leading_component (str ''9007199254740993.0'') = Some (2 ^ 53 + 1)"
    "spec_leading_component (str ''9007199254740992.0'') = Some (2 ^ 53)"
    by (simp_all add: spec_eval)
  show ?thesis
    by (simp add: stable_info_def spec_majorReleaseDate_def code spec strict_eq_def
          List.map_filter_simps)
qed

text \<open>
  Claim C1, as the code has it. \<^verbatim>\<open>fetchLatestVersionInfo\<close> takes the date of the last
  record of the latest major line, in the order of the sequence, and compares leading
  components as \<^verbatim>\<open>parseInt\<close> reads them. When the leading components of the stable records
  are below \<open>2^53\<close>, and the records of the latest major line have valid dates that
  never increase along the sequence (newest first, as the registry publishes them),
  this date is the earliest \<open>created_at\<close> of the line, the date the specification
  names; it is the timestamp the staleness check subtracts from the current time, for
  every pinned version of another major line.
\<close>

theorem major_release_date_newest_first:
  assumes "filter (\<lambda>v. \<not> prerelease v) history = l # rest"
    and "\<forall>v\<in>set (l # rest). \<exists>n<2 ^ 53. spec_leading_component (number v) = Some n"
    and "map created_at
           (filter (\<lambda>v. spec_leading_component (number v) = spec_leading_component (number l))
              (l # rest)) =
         map Some ts"
    and "sorted_wrt (\<lambda>a b. b \<le> a) ts"
  shows "stable_info history =
           Some \<lparr>latest = number l, majorReleaseDate = spec_majorReleaseDate history\<rparr> \<and>
         spec_majorReleaseDate history = Some (Min (set ts)) \<and>
         spec_majorReleaseDate history =
           created_at (last (filter
             (\<lambda>v. strict_eq (major_of (number v)) (major_of (number l))) (l # rest))) \<and>
         daysSince today (spec_majorReleaseDate history) =
           Some ((today - Min (set ts)) div (1000 * 60 * 60 * 24)) \<and>
         (cv \<noteq> [] \<and> \<not> strict_eq (major_of cv) (major_of (number l)) \<longrightarrow>
            determineTargetVersion today (Some cv) (number l) (spec_majorReleaseDate history) =
              (if 180 * 86400000 \<le> today - Min (set ts) then number l else cv))"
proof -
  define ms where
    "ms = filter (\<lambda>v. strict_eq (major_of (number v)) (major_of (number l))) (l # rest)"
  have same: "ms =
      filter (\<lambda>v. spec_leading_component (number v) = spec_leading_component (number l))
        (l # rest)"
    unfolding ms_def by (rule major_line_exact [OF assms(2)]) simp
  obtain n where n: "n < 2 ^ 53" "spec_leading_component (number l) = Some n"
    using assms(2) by auto
  have num: "major_of (number l) \<noteq> NaN" using major_of_exact [OF n(2,1)] by simp
  have ne: "ms \<noteq> []" using num by (simp add: ms_def strict_eq_def)
  have eq: "map created_at ms = map Some ts" using assms(3) by (simp only: same)
  have ts: "ts \<noteq> []" using ne eq by (metis map_is_Nil_conv)
  have "created_at (last ms) = last (map created_at ms)" using ne by (simp add: last_map)
  also have "\<dots> = Some (last ts)" using ts by (simp add: eq last_map)
  also have "last ts = Min (set ts)" using sorted_desc_Min [OF assms(4) ts] by simp
  finally have last: "created_at (last ms) = Some (Min (set ts))" .
  have "spec_majorReleaseDate history =
          (case List.map_filter created_at ms of [] \<Rightarrow> None | t # ts \<Rightarrow> Some (Min (set (t # ts))))"
    by (simp only: spec_majorReleaseDate_def assms(1) same list.case)
  also have "\<dots> = Some (Min (set ts))"
    using ts by (simp add: map_filter_Some [OF eq] split: list.splits)
  finally have spec: "spec_majorReleaseDate history = Some (Min (set ts))" .
  have info: "stable_info history =
      Some \<lparr>latest = number l, majorReleaseDate = created_at (last ms)\<rparr>"
    unfolding ms_def by (rule stable_info_defined [OF assms(1) num])
  have days: "daysSince today (spec_majorReleaseDate history) =
      Some ((today - Min (set ts)) div (1000 * 60 * 60 * 24))"
    by (simp add: spec daysSince_def)
  have gate: "cv \<noteq> [] \<and> \<not> strict_eq (major_of cv) (major_of (number l)) \<longrightarrow>
      determineTargetVersion today (Some cv) (number l) (spec_majorReleaseDate history) =
        (if 180 * 86400000 \<le> today - Min (set ts) then number l else cv)"
    by (simp add: spec determine_pinned)
  from info last spec days gate show ?thesis unfolding ms_def by simp
qed

theorem major_release_date_newest_first_witness:
  "stable_info
     [\<lparr>number = str ''3.1.0'', prerelease = False, created_at = Some 200\<rparr>,
      \<lparr>number = str ''3.1.0.rc1'', prerelease = True, created_at = Some 150\<rparr>,
      \<lparr>number = str ''3.0.0'', prerelease = False, created_at = Some 100\<rparr>,
      \<lparr>number = str ''2.9.0'', prerelease = False, created_at = Some 50\<rparr>] =
   Some \<lparr>latest = str ''3.1.0'', majorReleaseDate = Some 100\<rparr> \<and>
   daysSince (100 + 179 * 86400000)
     (spec_majorReleaseDate
        [\<lparr>number = str ''3.1.0'', prerelease = False, created_at = Some 200\<rparr>,
         \<lparr>number = str ''3.1.0.rc1'', prerelease = True, created_at = Some 150\<rparr>,
         \<lparr>number = str ''3.0.0'', prerelease = False, created_at = Some 100\<rparr>,
         \<lparr>number = str ''2.9.0'', prerelease = False, created_at = Some 50\<rparr>]) = Some 179 \<and>
   determineTargetVersion (100 + 179 * 86400000) (Some (str ''2.9.0'')) (str ''3.1.0'') (Some 100) =
     str ''2.9.0''"
  using major_release_date_newest_first
    [of "[\<lparr>number = str ''3.1.0'', prerelease = False, created_at = Some 200\<rparr>,
          \<lparr>number = str ''3.1.0.rc1'', prerelease = True, created_at = Some 150\<rparr>,
          \<lparr>number = str ''3.0.0'', prerelease = False, created_at = Some 100\<rparr>,
          \<lparr>number = str ''2.9.0'', prerelease = False, created_at = Some 50\<rparr>]"
        "\<lparr>number = str ''3.1.0'', prerelease = False, created_at = Some 200\<rparr>"
        "[\<lparr>number = str ''3.0.0'', prerelease = False, created_at = Some 100\<rparr>,
          \<lparr>number = str ''2.9.0'', prerelease = False, created_at = Some 50\<rparr>]"
        "[200, 100]" "100 + 179 * 86400000" "str ''2.9.0''"]
  by (simp add: major_of_examples spec_leading_component_examples strict_eq_def daysSince_def)
    (auto simp: str_def)

text \<open>
  Claim C1, as stated, fails where the sequence is not ordered newest first: with
  \<open>3.1.0\<close> created at time 100 listed before \<open>3.0.0\<close> created at time 200, the code
  uses 200, and the earliest date of the major line is 100.
\<close>

theorem major_release_date_not_earliest:
  "stable_info
     [\<lparr>number = str ''3.1.0'', prerelease = False, created_at = Some 100\<rparr>,
      \<lparr>number = str ''3.0.0'', prerelease = False, created_at = Some 200\<rparr>] =
   Some \<lparr>latest = str ''3.1.0'', majorReleaseDate = Some 200\<rparr> \<and>
   spec_majorReleaseDate
     [\<lparr>number = str ''3.1.0'', prerelease = False, created_at = Some 100\<rparr>,
      \<lparr>number = str ''3.0.0'', prerelease = False, created_at = Some 200\<rparr>] = Some 100"
  by (simp add: stable_info_def spec_majorReleaseDate_def major_of_examples strict_eq_def
        spec_leading_component_examples List.map_filter_simps)

text \<open>
  Claim C2, as the code has it. The resolver compares the leading components as
  \<^verbatim>\<open>parseInt\<close> reads them, as JavaScript numbers. For a pinned version whose leading
  component so read differs from that of the latest version,
  \<^verbatim>\<open>determineTargetVersion\<close> returns the latest version when the major line's release
  date is at least 180 days (of 86400000 milliseconds) before today, and the pinned
  version itself, unchanged, when it is less.
\<close>

theorem new_major_gate:
  assumes "cv \<noteq> []" and "\<not> strict_eq (major_of cv) (major_of lv)"
  shows "determineTargetVersion today (Some cv) lv (Some d) =
           (if 180 * 86400000 \<le> today - d then lv else cv)"
  using assms by (simp add: determine_pinned)

theorem new_major_gate_witness:
  "determineTargetVersion (200 * 86400000) (Some (str ''2.3.0'')) (str ''3.0.0'') (Some 0) =
     str ''3.0.0'' \<and>
   determineTargetVersion (10 * 86400000) (Some (str ''2.3.0'')) (str ''3.0.0'') (Some 0) =
     str ''2.3.0''"
  using new_major_gate [of "str ''2.3.0''" "str ''3.0.0''" "200 * 86400000" 0]
    new_major_gate [of "str ''2.3.0''" "str ''3.0.0''" "10 * 86400000" 0]
  by (simp add: major_of_examples strict_eq_def) (simp add: str_def)

text \<open>
  Claim C2, as stated, fails where two leading components differ and are read as one
  number. The pinned version \<open>9007199254740993.0\<close> and the latest version
  \<open>9007199254740992.1\<close> have the leading components \<open>2^53 + 1\<close> and \<open>2^53\<close>; \<^verbatim>\<open>parseInt\<close>
  reads both as the double \<open>2^53\<close>, and the resolver returns the latest version 10
  days after the release, where the claim keeps the pinned one.
\<close>

theorem new_major_gate_same_double:
  "spec_leading_component (str ''9007199254740993.0'') = Some (2 ^ 53 + 1) \<and>
   spec_leading_component (str ''9007199254740992.1'') = Some (2 ^ 53) \<and>
   major_of (str ''9007199254740993.0'') = Integer (2 ^ 53) \<and>
   major_of (str ''9007199254740992.1'') = Integer (2 ^ 53) \<and>
   determineTargetVersion (10 * 86400000) (Some (str ''9007199254740993.0''))
     (str ''9007199254740992.1'') (Some 0) = str ''9007199254740992.1''"
proof -
  have cv: "major_of (str ''9007199254740993.0'') = Integer (2 ^ 53)"
    by (simp add: number_eval)
  have lv: "major_of (str ''9007199254740992.1'') = Integer (2 ^ 53)"
    by (simp add: number_eval)
  have "str ''9007199254740993.0'' \<noteq> []" by (simp add: str_def)
  then have "determineTargetVersion (10 * 86400000) (Some (str ''9007199254740993.0''))
     (str ''9007199254740992.1'') (Some 0) = str ''9007199254740992.1''"
    by (simp add: determine_pinned cv lv strict_eq_def)
  moreover have "spec_leading_component (str ''9007199254740993.0'') = Some (2 ^ 53 + 1)"
    by (simp add: spec_eval)
  moreover have "spec_leading_component (str ''9007199254740992.1'') = Some (2 ^ 53)"
    by (simp add: spec_eval)
  ultimately show ?thesis using cv lv by simp
qed

text \<open>
  Claim C3. When the history has a non-prerelease record, the first of which has a
  numeric leading component, the resolver yields that record's version both for an
  unpinned declaration and for a pinned one with the same leading component, whatever
  the dates are.
\<close>

theorem adopt_latest:
  assumes "filter (\<lambda>v. \<not> prerelease v) history = l # rest"
    and "major_of (number l) \<noteq> NaN"
  shows "\<exists>info. stable_info history = Some info \<and> latest info = number l \<and>
           determineTargetVersion today None (latest info) (majorReleaseDate info) = number l \<and>
           (\<forall>cv. strict_eq (major_of cv) (major_of (number l)) \<longrightarrow>
              determineTargetVersion today (Some cv) (latest info) (majorReleaseDate info) =
                number l)"
  by (simp add: stable_info_defined [OF assms] determine_unpinned determine_same_major)

theorem adopt_latest_witness:
  "\<exists>info.
     stable_info
       [\<lparr>number = str ''3.0.0'', prerelease = True, created_at = Some 9\<rparr>,
        \<lparr>number = str ''2.9.1'', prerelease = False, created_at = Some 7\<rparr>,
        \<lparr>number = str ''2.3.0'', prerelease = False, created_at = Some 1\<rparr>] = Some info \<and>
     determineTargetVersion 10 None (latest info) (majorReleaseDate info) = str ''2.9.1'' \<and>
     determineTargetVersion 10 (Some (str ''2.3.0'')) (latest info) (majorReleaseDate info) =
       str ''2.9.1''"
  using adopt_latest
    [of "[\<lparr>number = str ''3.0.0'', prerelease = True, created_at = Some 9\<rparr>,
          \<lparr>number = str ''2.9.1'', prerelease = False, created_at = Some 7\<rparr>,
          \<lparr>number = str ''2.3.0'', prerelease = False, created_at = Some 1\<rparr>]"
        "\<lparr>number = str ''2.9.1'', prerelease = False, created_at = Some 7\<rparr>"
        "[\<lparr>number = str ''2.3.0'', prerelease = False, created_at = Some 1\<rparr>]"
        10]
  by (auto simp: major_of_examples strict_eq_def)

text \<open>
  Claim C10. The resolver can go down within a major line: with \<open>2.9.0\<close> pinned and
  \<open>2.3.0\<close> the newest stable release, the target is \<open>2.3.0\<close>.
\<close>

theorem downgrade_within_major:
  "stable_info [\<lparr>number = str ''2.3.0'', prerelease = False, created_at = Some 0\<rparr>] =
     Some \<lparr>latest = str ''2.3.0'', majorReleaseDate = Some 0\<rparr> \<and>
   determineTargetVersion today (Some (str ''2.9.0'')) (str ''2.3.0'') (Some 0) = str ''2.3.0''"
  by (simp add: stable_info_def determine_same_major major_of_examples strict_eq_def)

section \<open>The expressions and what they compute\<close>

text \<open>
  The lemmas of this section relate the backtracking matcher on the expressions of the
  source to the direct computations: \<open>exec_gem_name\<close>, \<open>exec_version\<close>,
  \<open>exec_after_name\<close>, \<open>exec_indent\<close>, \<open>replace_constraint\<close> and \<open>test_alt_source\<close>. With
  them \<open>parseGemLine_unfold\<close> and \<open>buildGemLine_unfold\<close> restate the parser and the
  rebuilder without the matcher.
\<close>

lemma star_matcher_map:
  "map_option f (star_matcher P prev s caps k) =
   star_matcher P prev s caps (\<lambda>st. map_option f (k st))"
proof (induction s arbitrary: prev)
  case Nil
  then show ?case by simp
next
  case (Cons c cs)
  show ?case
  proof (cases "star_matcher P (Some c) cs caps k")
    case None
    with Cons [of "Some c"]
    have "star_matcher P (Some c) cs caps (\<lambda>st. map_option f (k st)) = None" by simp
    with None show ?thesis by simp
  next
    case (Some r)
    with Cons [of "Some c"]
    have "star_matcher P (Some c) cs caps (\<lambda>st. map_option f (k st)) = Some (f r)" by simp
    with Some show ?thesis by simp
  qed
qed

lemma matcher_map: "map_option f (matcher r st k) = matcher r st (\<lambda>st'. map_option f (k st'))"
proof (induction r arbitrary: st k)
  case (Star P)
  then show ?case by (cases st) (simp add: star_matcher_map)
next
  case (Chars P)
  then show ?case by (cases st) (auto split: list.splits)
next
  case (Seq a b)
  then show ?case by simp
next
  case (Alt a b)
  show ?case using Alt [of st k] by (auto split: option.splits)
next
  case (Opt a)
  obtain prev s caps where st: "st = (prev, s, caps)" by (cases st)
  have eq: "(\<lambda>st'. map_option f
                (case st' of (prev', s', caps') \<Rightarrow>
                   if length s' = length s then None else k (prev', s', caps'))) =
        (\<lambda>(prev', s', caps').
            if length s' = length s then None else map_option f (k (prev', s', caps')))"
    by (auto simp: fun_eq_iff)
  show ?case unfolding st
    using Opt [of "(prev, s, caps)"
        "\<lambda>(prev', s', caps'). if length s' = length s then None else k (prev', s', caps')"]
    by (auto simp: eq split: option.splits)
next
  case (Cap i a)
  obtain prev s caps where st: "st = (prev, s, caps)" by (cases st)
  have eq: "(\<lambda>st'. map_option f
                (case st' of (prev', s', caps') \<Rightarrow>
                   k (prev', s', caps'(i := Some (take (length s - length s') s))))) =
        (\<lambda>(prev', s', caps').
            map_option f (k (prev', s', caps'(i := Some (take (length s - length s') s)))))"
    by (auto simp: fun_eq_iff)
  show ?case unfolding st
    using Cap [of "(prev, s, caps)"
        "\<lambda>(prev', s', caps'). k (prev', s', caps'(i := Some (take (length s - length s') s)))"]
    by (simp add: eq)
next
  case Epsilon
  then show ?case by simp
next
  case WordBoundary
  then show ?case by (cases st) simp
next
  case LineStart
  then show ?case by (cases st) simp
qed

lemma star_matcher_longest:
  assumes "\<And>p c t. P c \<Longrightarrow> k (p, c # t, caps) = None"
  shows "star_matcher P prev s caps k = k (last_of prev (takeWhile P s), dropWhile P s, caps)"
proof (induction s arbitrary: prev)
  case Nil
  then show ?case by (simp add: last_of_def)
next
  case (Cons c cs)
  show ?case
  proof (cases "P c")
    case True
    have l: "last_of prev (c # takeWhile P cs) = last_of (Some c) (takeWhile P cs)"
      by (simp add: last_of_def)
    show ?thesis using True Cons [of "Some c"] assms [OF True, of prev cs]
      by (simp add: l split: option.splits)
  next
    case False
    then show ?thesis by (simp add: last_of_def)
  qed
qed

lemma star_matcher_first:
  assumes "k (last_of prev (takeWhile P s), dropWhile P s, caps) = Some r"
  shows "star_matcher P prev s caps k = Some r"
  using assms
proof (induction s arbitrary: prev)
  case Nil
  then show ?case by (simp add: last_of_def)
next
  case (Cons c cs)
  show ?case
  proof (cases "P c")
    case True
    have l: "last_of prev (c # takeWhile P cs) = last_of (Some c) (takeWhile P cs)"
      by (simp add: last_of_def)
    show ?thesis using True Cons.IH [of "Some c"] Cons.prems by (simp add: l)
  next
    case False
    then show ?thesis using Cons.prems by (simp add: last_of_def)
  qed
qed

lemma matcher_lit:
  "matcher (lit w) (prev, s, caps) k =
     (if startsWith s w then k (last_of prev w, drop (length w) s, caps) else None)"
proof (induction w arbitrary: prev s)
  case Nil
  then show ?case by (simp add: last_of_def startsWith_def)
next
  case (Cons c w)
  show ?case
  proof (cases s)
    case Nil
    then show ?thesis by (simp add: startsWith_def)
  next
    case (Cons d t)
    have l: "last_of (Some c) w = last_of prev (c # w)" by (simp add: last_of_def)
    show ?thesis using Cons.IH [of "Some c" t] unfolding Cons
      by (auto simp: l Cons.IH startsWith_def)
  qed
qed

lemma matcher_plus_longest:
  assumes "\<And>p c t. P c \<Longrightarrow> k (p, c # t, caps) = None"
  shows "matcher (plus_re P) (prev, s, caps) k =
           (if takeWhile P s = [] then None
            else k (Some (last (takeWhile P s)), dropWhile P s, caps))"
proof (cases s)
  case Nil
  then show ?thesis by (simp add: plus_re_def)
next
  case (Cons c cs)
  show ?thesis
  proof (cases "P c")
    case True
    have "last_of (Some c) (takeWhile P cs) = Some (last (c # takeWhile P cs))"
      by (simp add: last_of_def)
    moreover have "star_matcher P (Some c) cs caps k =
        k (last_of (Some c) (takeWhile P cs), dropWhile P cs, caps)"
      using assms by (rule star_matcher_longest)
    ultimately show ?thesis unfolding Cons using True by (simp add: plus_re_def)
  next
    case False
    then show ?thesis unfolding Cons by (simp add: plus_re_def)
  qed
qed

lemma matcher_star_longest:
  assumes "\<And>p c t. P c \<Longrightarrow> k (p, c # t, caps) = None"
  shows "matcher (Star P) (prev, s, caps) k =
           k (last_of prev (takeWhile P s), dropWhile P s, caps)"
proof -
  have "star_matcher P prev s caps k = k (last_of prev (takeWhile P s), dropWhile P s, caps)"
    using assms by (rule star_matcher_longest)
  then show ?thesis by simp
qed

lemma take_length_dropWhile:
  "take (length xs - length (dropWhile P xs)) xs = takeWhile P xs"
proof -
  have "length xs - length (dropWhile P xs) = length (takeWhile P xs)"
    by (metis add_diff_cancel_right' length_append takeWhile_dropWhile_id)
  then show ?thesis by (metis append_eq_conv_conj takeWhile_dropWhile_id)
qed

lemma first_match_map:
  "first_match (\<lambda>s. map_option f (h s)) s = map_option f (first_match h s)"
  by (induction s) (auto split: option.splits)

lemma matcher_project:
  "map_option (\<lambda>(i, caps). g caps)
     (matcher r st (\<lambda>(_, _, caps). Some (i, caps))) =
   matcher r st (\<lambda>(_, _, caps). Some (g caps))"
proof -
  have "(\<lambda>st'. map_option (\<lambda>(i, caps). g caps)
               (case st' of (_, _, caps) \<Rightarrow> Some (i, caps))) =
        (\<lambda>(_, _, caps). Some (g caps))"
    by (auto simp: fun_eq_iff)
  then have "matcher r st (\<lambda>st'. map_option (\<lambda>(i, caps). g caps)
               (case st' of (_, _, caps) \<Rightarrow> Some (i, caps))) =
        matcher r st (\<lambda>(_, _, caps). Some (g caps))"
    by (rule arg_cong)
  with matcher_map [of "\<lambda>(i, caps). g caps" r st "\<lambda>(_, _, caps). Some (i, caps)"]
  show ?thesis by (rule trans)
qed

lemma exec_from_first_match:
  assumes "\<And>prev s. matcher (Cap 0 r) (prev, s, \<lambda>_. None) (\<lambda>(_, _, caps). Some (g caps)) = h s"
  shows "map_option (\<lambda>(i, caps). g caps) (exec_from r i prev s) = first_match h s"
proof (induction s arbitrary: i prev)
  case Nil
  show ?case by (simp only: exec_from.simps first_match.simps matcher_project assms)
next
  case (Cons c cs)
  have here: "map_option (\<lambda>(i, caps). g caps)
          (matcher (Cap 0 r) (prev, c # cs, \<lambda>_. None) (\<lambda>(_, _, caps). Some (i, caps))) =
        h (c # cs)"
    by (simp only: matcher_project assms)
  show ?case
  proof (cases "matcher (Cap 0 r) (prev, c # cs, \<lambda>_. None) (\<lambda>(_, _, caps). Some (i, caps))")
    case None
    with here have "h (c # cs) = None" by simp
    with None Cons [of "i + 1" "Some c"] show ?thesis by simp
  next
    case (Some found)
    with here have "h (c # cs) = Some ((\<lambda>(i, caps). g caps) found)" by simp
    with Some show ?thesis by simp
  qed
qed

lemma quote_not_space: "is_quote c \<Longrightarrow> \<not> is_space c"
  by (auto simp: is_quote_def is_space_def is_line_terminator_def)

lemma space_not_quote: "is_space c \<Longrightarrow> \<not> is_quote c"
  by (auto simp: is_quote_def is_space_def is_line_terminator_def)

lemma str_gem: "str ''gem'' = [103, 101, 109]" "str ''gem '' = [103, 101, 109, 32]"
  by (simp_all add: str_def)

lemma length_str_gem: "length (str ''gem'') = 3"
  by (simp add: str_def)

lemma dropWhile_not_quote_Cons:
  "dropWhile (\<lambda>c. \<not> is_quote c) s = q # t \<Longrightarrow> is_quote q"
  using hd_dropWhile [of "\<lambda>c. \<not> is_quote c" s] by auto

lemma take_length_dropWhile_Cons:
  "dropWhile P xs = y # ys \<Longrightarrow> take (length xs - Suc (length ys)) xs = takeWhile P xs"
  using take_length_dropWhile [of xs P] by simp

lemmas gem_name_simps =
  gem_name_re_def gem_name_at_def matcher_lit matcher_plus_longest space_not_quote Let_def
  length_str_gem

lemma matcher_gem_name:
  "matcher (Cap 0 gem_name_re) (prev, s, c0) (\<lambda>(_, _, caps). Some (caps 1)) =
   map_option Some (gem_name_at s)"
proof (cases "dropWhile is_space (drop 3 s)")
  case Nil
  show ?thesis by (simp add: Nil gem_name_simps)
next
  case ws: (Cons q s2)
  show ?thesis
  proof (cases "dropWhile (\<lambda>c. \<not> is_quote c) s2")
    case Nil
    show ?thesis by (simp add: ws Nil gem_name_simps)
  next
    case (Cons q2 rest)
    show ?thesis using dropWhile_not_quote_Cons [OF Cons]
      by (simp add: ws Cons gem_name_simps take_length_dropWhile_Cons [OF Cons])
  qed
qed

lemma exec_gem_name:
  "map_option (\<lambda>(i, caps). caps 1) (exec gem_name_re line) =
   map_option Some (first_match gem_name_at line)"
  unfolding exec_def first_match_map [symmetric]
  by (rule exec_from_first_match) (rule matcher_gem_name)

lemma star_matcher_total:
  assumes "\<And>p t. k (p, t, caps) \<noteq> None"
  shows "star_matcher P prev s caps k = k (last_of prev (takeWhile P s), dropWhile P s, caps)"
proof -
  obtain r where "k (last_of prev (takeWhile P s), dropWhile P s, caps) = Some r"
    using assms by fastforce
  then show ?thesis by (simp add: star_matcher_first)
qed

lemma matcher_after_name:
  "matcher (Cap 0 (after_name_re name)) (prev, s, c0) (\<lambda>(_, _, caps). Some (caps 1)) =
   map_option Some (after_name_at name s)"
proof (cases "dropWhile is_space (drop 3 s)")
  case Nil
  show ?thesis
    by (simp add: Nil after_name_re_def after_name_at_def matcher_lit matcher_plus_longest
          space_not_quote Let_def length_str_gem)
next
  case ws: (Cons q s2)
  show ?thesis
  proof (cases "drop (length name) s2")
    case Nil
    show ?thesis
      by (simp add: ws Nil after_name_re_def after_name_at_def matcher_lit matcher_plus_longest
          space_not_quote Let_def length_str_gem)
  next
    case (Cons q2 s3)
    show ?thesis
      by (simp add: ws Cons after_name_re_def after_name_at_def matcher_lit
          matcher_plus_longest star_matcher_total space_not_quote Let_def length_str_gem
          take_length_dropWhile)
  qed
qed

lemma exec_after_name:
  "map_option (\<lambda>(i, caps). caps 1) (exec (after_name_re name) line) =
   map_option Some (first_match (after_name_at name) line)"
  unfolding exec_def first_match_map [symmetric]
  by (rule exec_from_first_match) (rule matcher_after_name)

lemma exec_from_anchored_later:
  "exec_from (Seq LineStart r) i (Some c) s = None"
  by (induction s arbitrary: i c) simp_all

lemma exec_anchored:
  "exec (Seq LineStart r) s =
   matcher (Cap 0 r) (None, s, \<lambda>_. None) (\<lambda>(_, _, caps). Some (0, caps))"
  by (cases s) (simp_all add: exec_def exec_from_anchored_later split: option.splits)

lemma exec_indent:
  "exec indent_re s = Some (0, (\<lambda>_. None)(0 := Some (takeWhile is_space s)))"
  by (simp add: indent_re_def exec_anchored star_matcher_total take_length_dropWhile)

lemma drop_length_suffix: "suffix ys xs \<Longrightarrow> drop (length xs - length ys) xs = ys"
  by (auto simp: suffix_def)

lemma replace_constraint: "replace_first constraint_re s = strip_constraint s"
proof (cases s)
  case Nil
  show ?thesis
    by (simp add: Nil replace_first_def constraint_re_def exec_anchored strip_constraint_def)
next
  case s: (Cons c s1)
  show ?thesis
  proof (cases "dropWhile is_space s1")
    case Nil
    show ?thesis
      by (simp add: s Nil replace_first_def constraint_re_def exec_anchored
            strip_constraint_def star_matcher_longest space_not_quote)
  next
    case ws: (Cons q s2)
    show ?thesis
    proof (cases "dropWhile (\<lambda>c. \<not> is_quote c) s2")
      case Nil
      show ?thesis
        by (simp add: s ws Nil replace_first_def constraint_re_def exec_anchored
              strip_constraint_def star_matcher_longest space_not_quote)
    next
      case (Cons q2 s3)
      have "suffix (q2 # s3) s2" using suffix_dropWhile [of "\<lambda>c. \<not> is_quote c" s2] by (simp add: Cons)
      then have "suffix s3 (q # s2)" by (meson suffix_Cons suffix_ConsD)
      moreover have "suffix (q # s2) s1" using suffix_dropWhile [of is_space s1] by (simp add: ws)
      ultimately have "suffix s3 (c # s1)" by (meson suffix_Cons suffix_order.trans)
      then have len: "length s3 \<le> length s1"
        and drop: "drop (Suc (length s1) - length s3) (c # s1) = s3"
        using drop_length_suffix [of s3 "c # s1"] suffix_length_le [of s3 "c # s1"]
          \<open>suffix s3 (q # s2)\<close> \<open>suffix (q # s2) s1\<close> suffix_length_le [of s3 "q # s2"]
          suffix_length_le [of "q # s2" s1] by auto
      show ?thesis using dropWhile_not_quote_Cons [OF Cons] len drop
        by (auto simp: s ws Cons replace_first_def constraint_re_def exec_anchored
              strip_constraint_def star_matcher_longest space_not_quote min_def)
    qed
  qed
qed

lemma matcher_alt_source:
  "matcher (Cap 0 alt_source_re) (prev, s, c0) (\<lambda>(_, _, caps). Some (i, caps)) \<noteq> None \<longleftrightarrow>
   word_before prev \<noteq> word_after s \<and> list_ex (startsWith s) alt_source_markers"
  by (simp add: alt_source_re_def alt_source_markers_def matcher_lit)

lemma exec_from_alt_source:
  "exec_from alt_source_re i prev s \<noteq> None \<longleftrightarrow> alt_source_from (word_before prev) s"
proof (induction s arbitrary: i prev)
  case Nil
  have "\<not> list_ex (startsWith []) alt_source_markers"
    by (simp add: alt_source_markers_def startsWith_def str_def)
  then show ?case using matcher_alt_source [of prev "[]" "\<lambda>_. None" i]
    by (simp del: matcher.simps)
next
  case (Cons c cs)
  show ?case
  proof (cases "matcher (Cap 0 alt_source_re) (prev, c # cs, \<lambda>_. None)
                  (\<lambda>(_, _, caps). Some (i, caps))")
    case None
    with matcher_alt_source [of prev "c # cs" "\<lambda>_. None" i]
    have "\<not> (word_before prev \<noteq> is_word c \<and> list_ex (startsWith (c # cs)) alt_source_markers)"
      by (simp add: word_after_def del: matcher.simps)
    with None Cons [of "i + 1" "Some c"] show ?thesis
      by (auto simp: word_before_def simp del: matcher.simps)
  next
    case (Some found)
    with matcher_alt_source [of prev "c # cs" "\<lambda>_. None" i]
    have "word_before prev \<noteq> is_word c \<and> list_ex (startsWith (c # cs)) alt_source_markers"
      by (simp add: word_after_def del: matcher.simps)
    with Some show ?thesis by (auto simp del: matcher.simps)
  qed
qed

lemma test_alt_source: "test alt_source_re line = alt_source_from False line"
  using exec_from_alt_source [of 0 None line] by (simp add: test_def exec_def word_before_def)

lemma digit_not_quote: "is_digit c \<Longrightarrow> \<not> is_quote c"
  by (auto simp: is_digit_def is_quote_def)

lemma dot_not_quote: "\<not> is_quote 46" and dot_not_digit: "\<not> is_digit 46"
  by (simp_all add: is_quote_def is_digit_def)

lemma dot_digits_digit: "is_digit c \<Longrightarrow> dot_digits (c # t) = 0"
  by (auto simp: dot_digits_def dot_not_digit)

lemma dot_digits_pos: "dot_digits s \<noteq> 0 \<Longrightarrow> \<exists>t. s = 46 # t \<and> takeWhile is_digit t \<noteq> []
    \<and> dot_digits s = Suc (length (takeWhile is_digit t))
    \<and> drop (dot_digits s) s = dropWhile is_digit t"
  by (cases s) (auto simp: dot_digits_def dropWhile_eq_drop split: if_splits)

lemma matcher_dot_number:
  assumes "\<And>p c t. is_digit c \<Longrightarrow> k (p, c # t, caps) = None"
  shows "matcher dot_number_re (prev, s, caps) k =
           (if dot_digits s = 0 then None
            else k (Some (last (takeWhile is_digit (tl s))), drop (dot_digits s) s, caps))"
proof (cases s)
  case Nil
  then show ?thesis by (simp add: dot_number_re_def dot_digits_def)
next
  case (Cons c t)
  have "matcher (plus_re is_digit) (Some c, t, caps) k =
          (if takeWhile is_digit t = [] then None
           else k (Some (last (takeWhile is_digit t)), dropWhile is_digit t, caps))"
    using assms by (rule matcher_plus_longest)
  then show ?thesis
    by (auto simp: Cons dot_number_re_def dot_digits_def dropWhile_eq_drop)
qed

lemma dot_digits_le: "dot_digits s \<le> length s"
proof (cases s)
  case Nil
  then show ?thesis by (simp add: dot_digits_def)
next
  case (Cons c t)
  have "length (takeWhile is_digit t) \<le> length t" by (rule length_takeWhile_le)
  then show ?thesis by (simp add: Cons dot_digits_def)
qed

lemma matcher_opt_dot_number:
  assumes "\<And>p c t. is_digit c \<Longrightarrow> k (p, c # t, caps) = None"
  shows "matcher (Opt dot_number_re) (prev, s, caps) k =
           (if dot_digits s = 0 then k (prev, s, caps)
            else (case k (Some (last (takeWhile is_digit (tl s))), drop (dot_digits s) s, caps) of
                    Some r \<Rightarrow> Some r
                  | None \<Rightarrow> k (prev, s, caps)))"
proof -
  define k' where
    "k' = (\<lambda>(prev', s', caps'). if length s' = length s then None else k (prev', s', caps'))"
  have k': "\<And>p c t. is_digit c \<Longrightarrow> k' (p, c # t, caps) = None"
    by (simp add: k'_def assms)
  have inner: "matcher dot_number_re (prev, s, caps) k' =
      (if dot_digits s = 0 then None
       else k' (Some (last (takeWhile is_digit (tl s))), drop (dot_digits s) s, caps))"
    using k' by (rule matcher_dot_number)
  have len: "dot_digits s \<noteq> 0 \<Longrightarrow> length (drop (dot_digits s) s) \<noteq> length s"
    using dot_digits_le [of s] by (cases s) (auto simp: dot_digits_def)
  have "matcher (Opt dot_number_re) (prev, s, caps) k =
        (case matcher dot_number_re (prev, s, caps) k' of
           Some r \<Rightarrow> Some r
         | None \<Rightarrow> k (prev, s, caps))"
    by (simp add: k'_def)
  also have "\<dots> = (if dot_digits s = 0 then k (prev, s, caps)
            else (case k (Some (last (takeWhile is_digit (tl s))), drop (dot_digits s) s, caps) of
                    Some r \<Rightarrow> Some r
                  | None \<Rightarrow> k (prev, s, caps)))"
    unfolding inner using len by (auto simp: k'_def)
  finally show ?thesis .
qed

lemma quote_next_not_quote: "\<not> is_quote c \<Longrightarrow> quote_next s0 (c # t) = None"
  by (simp add: quote_next_def)

lemma quote_next_dot: "dot_digits s \<noteq> 0 \<Longrightarrow> quote_next s0 s = None"
  by (cases s) (auto simp: dot_digits_def quote_next_def dot_not_quote split: if_splits)

lemma opt_quote:
  "matcher (Opt dot_number_re) (p, s, c) (\<lambda>(p', s', c'). quote_next s0 s') =
   quote_next s0 (drop (dot_digits s) s)"
proof -
  have "matcher (Opt dot_number_re) (p, s, c) (\<lambda>(p', s', c'). quote_next s0 s') =
      (if dot_digits s = 0 then quote_next s0 s
       else (case quote_next s0 (drop (dot_digits s) s) of
               Some r \<Rightarrow> Some r
             | None \<Rightarrow> quote_next s0 s))"
    by (subst matcher_opt_dot_number)
       (auto simp: quote_next_not_quote digit_not_quote split: option.splits)
  then show ?thesis by (auto simp: quote_next_dot split: option.splits)
qed

lemma opt_opt_quote:
  "matcher (Opt dot_number_re) (p, s, c)
     (\<lambda>st. matcher (Opt dot_number_re) st (\<lambda>(p', s', c'). quote_next s0 s')) =
   quote_next s0 (drop (dot_digits (drop (dot_digits s) s)) (drop (dot_digits s) s))"
proof -
  define k1 :: "mstate \<Rightarrow> jsstring option option" where
    "k1 = (\<lambda>st. matcher (Opt dot_number_re) st (\<lambda>(p', s', c'). quote_next s0 s'))"
  have k1: "k1 (p, s, c) = quote_next s0 (drop (dot_digits s) s)" for p s c
    unfolding k1_def by (rule opt_quote)
  have rej: "\<And>p d t. is_digit d \<Longrightarrow> k1 (p, d # t, c) = None"
    by (simp add: k1 dot_digits_digit quote_next_not_quote digit_not_quote)
  have "matcher (Opt dot_number_re) (p, s, c) k1 =
      (if dot_digits s = 0 then k1 (p, s, c)
       else (case k1 (Some (last (takeWhile is_digit (tl s))), drop (dot_digits s) s, c) of
               Some r \<Rightarrow> Some r
             | None \<Rightarrow> k1 (p, s, c)))"
    using rej by (rule matcher_opt_dot_number)
  also have "\<dots> = quote_next s0 (drop (dot_digits (drop (dot_digits s) s)) (drop (dot_digits s) s))"
  proof (cases "dot_digits s = 0")
    case True
    then show ?thesis by (simp add: k1)
  next
    case False
    have "quote_next s0 (drop (dot_digits s) s) = None"
      if "quote_next s0 (drop (dot_digits (drop (dot_digits s) s)) (drop (dot_digits s) s)) = None"
      using that quote_next_dot [of "drop (dot_digits s) s" s0]
      by (cases "dot_digits (drop (dot_digits s) s) = 0") simp_all
    then show ?thesis using False by (auto simp: k1 split: option.splits)
  qed
  finally show ?thesis unfolding k1_def .
qed

lemma take_length_suffix: "s = pre @ rest \<Longrightarrow> take (length s - length rest) s = pre"
  by simp

lemma close_capture_2:
  "(\<lambda>(p', s', c'). matcher (Chars is_quote)
       (p', s', c'(2 := Some (take (length s - length s') s))) (\<lambda>(_, _, caps). Some (caps 2))) =
   (\<lambda>(p', s', c'). quote_next s s')"
  by (auto simp: fun_eq_iff quote_next_def split: list.splits)

lemma matcher_version_number:
  "matcher
     (Seq (Cap 2 (Seq (plus_re is_digit)
                 (Seq dot_number_re
                 (Seq (Opt dot_number_re) (Opt dot_number_re)))))
          (Chars is_quote))
     (p, s, c) (\<lambda>(_, _, caps). Some (caps 2)) =
   map_option Some (version_number_at s)"
proof -
  define kb :: "mstate \<Rightarrow> jsstring option option" where
    "kb = (\<lambda>st. matcher (Opt dot_number_re) st
             (\<lambda>st. matcher (Opt dot_number_re) st (\<lambda>(p', s', c'). quote_next s s')))"
  have kb: "kb (p, t, c) = quote_next s (drop (dot_digits (drop (dot_digits t) t)) (drop (dot_digits t) t))"
    for p t c unfolding kb_def by (rule opt_opt_quote)
  have kb_rej: "\<And>p d t. is_digit d \<Longrightarrow> kb (p, d # t, c) = None"
    by (simp add: kb dot_digits_digit quote_next_not_quote digit_not_quote)
  define ka :: "mstate \<Rightarrow> jsstring option option" where
    "ka = (\<lambda>st. matcher dot_number_re st kb)"
  have ka: "ka (p, t, c) =
      (if dot_digits t = 0 then None
       else kb (Some (last (takeWhile is_digit (tl t))), drop (dot_digits t) t, c))" for p t
    unfolding ka_def using kb_rej by (rule matcher_dot_number)
  have ka_rej: "\<And>p d t. is_digit d \<Longrightarrow> ka (p, d # t, c) = None"
    by (simp add: ka dot_digits_digit)
  have "matcher
     (Seq (Cap 2 (Seq (plus_re is_digit)
                 (Seq dot_number_re
                 (Seq (Opt dot_number_re) (Opt dot_number_re)))))
          (Chars is_quote))
     (p, s, c) (\<lambda>(_, _, caps). Some (caps 2)) =
     matcher (plus_re is_digit) (p, s, c) ka"
    by (simp add: close_capture_2 ka_def kb_def del: matcher.simps(2))
  also have "\<dots> = (if takeWhile is_digit s = [] then None
                   else ka (Some (last (takeWhile is_digit s)), dropWhile is_digit s, c))"
    using ka_rej by (rule matcher_plus_longest)
  also have "\<dots> = map_option Some (version_number_at s)"
  proof (cases "takeWhile is_digit s = []")
    case True
    then show ?thesis by (simp add: version_number_at_def)
  next
    case d1: False
    define s1 where "s1 = dropWhile is_digit s"
    show ?thesis
    proof (cases "dot_digits s1 = 0")
      case True
      then show ?thesis using d1
        by (cases s1) (auto simp: ka s1_def [symmetric] version_number_at_def dot_digits_def Let_def
              split: if_splits)
    next
      case False
      then obtain s2 where s1: "s1 = 46 # s2" and d2: "takeWhile is_digit s2 \<noteq> []"
        and drop1: "drop (dot_digits s1) s1 = dropWhile is_digit s2"
        using dot_digits_pos [of s1] by blast
      define s3 where "s3 = dropWhile is_digit s2"
      define s4 where "s4 = drop (dot_digits s3) s3"
      define s5 where "s5 = drop (dot_digits s4) s4"
      have ka1: "ka (Some (last (takeWhile is_digit s)), s1, c) = quote_next s s5"
        using False by (simp add: ka kb drop1 s3_def s4_def s5_def)
      have whole: "s = (takeWhile is_digit s @ [46] @ takeWhile is_digit s2 @
                       take (dot_digits s3) s3 @ take (dot_digits s4) s4) @ s5"
      proof -
        have "s = takeWhile is_digit s @ s1" by (simp add: s1_def)
        also have "s1 = [46] @ takeWhile is_digit s2 @ s3" by (simp add: s1 s3_def)
        also have "s3 = take (dot_digits s3) s3 @ s4" by (simp add: s4_def)
        also have "s4 = take (dot_digits s4) s4 @ s5" by (simp add: s5_def)
        finally show ?thesis by simp
      qed
      have cap: "take (length s - length s5) s =
          takeWhile is_digit s @ [46] @ takeWhile is_digit s2 @
          take (dot_digits s3) s3 @ take (dot_digits s4) s4"
        using whole by (rule take_length_suffix)
      have "version_number_at s =
          (case s5 of
             [] \<Rightarrow> None
           | q # _ \<Rightarrow>
               if is_quote q
               then Some (takeWhile is_digit s @ [46] @ takeWhile is_digit s2 @
                          take (dot_digits s3) s3 @ take (dot_digits s4) s4)
               else None)"
      proof -
        have e1: "dropWhile is_digit s = 46 # s2" using s1 by (simp add: s1_def)
        have e2: "dropWhile is_digit s2 = s3" by (simp add: s3_def)
        have e3: "drop (dot_digits s3) s3 = s4" by (simp add: s4_def)
        have e4: "drop (dot_digits s4) s4 = s5" by (simp add: s5_def)
        show ?thesis using d1 d2
          by (simp add: version_number_at_def Let_def e1 e2 e3 e4 del: drop_drop
                cong: list.case_cong if_cong)
      qed
      then show ?thesis using d1
        by (simp add: ka1 s1_def [symmetric] quote_next_def cap split: list.splits)
    qed
  qed
  finally show ?thesis .
qed

lemma operator_not_space: "is_operator c \<Longrightarrow> \<not> is_space c"
  by (auto simp: is_operator_def is_space_def is_line_terminator_def)

lemma dropWhile_same_length: "length (dropWhile P xs) = length xs \<Longrightarrow> dropWhile P xs = xs"
  by (metis append_self_conv2 length_0_conv length_append add_cancel_right_left
        takeWhile_dropWhile_id)

lemma dropWhile_twice_same_length:
  assumes "length (dropWhile P (dropWhile Q xs)) = length xs"
  shows "dropWhile P (dropWhile Q xs) = xs"
proof -
  have "length (dropWhile P (dropWhile Q xs)) \<le> length (dropWhile Q xs)"
    by (rule length_dropWhile_le)
  moreover have "length (dropWhile Q xs) \<le> length xs" by (rule length_dropWhile_le)
  ultimately have "length (dropWhile Q xs) = length xs"
    and "length (dropWhile P (dropWhile Q xs)) = length (dropWhile Q xs)"
    using assms by simp_all
  then show ?thesis by (simp add: dropWhile_same_length)
qed

lemma dropWhile_changes:
  "dropWhile P (dropWhile Q xs) \<noteq> xs \<Longrightarrow> \<exists>d t. xs = d # t \<and> (P d \<or> Q d)"
  by (cases xs) (auto split: if_splits)

lemma matcher_opt_operator:
  fixes k :: "mstate \<Rightarrow> 'a option"
  assumes k: "\<And>p t c. k (p, t, c) = f t"
    and f: "\<And>d t. is_operator d \<or> is_space d \<Longrightarrow> f (d # t) = None"
  shows "matcher (Opt (Cap 1 (Seq (Star is_operator) (Star is_space)))) (p, s, c) k =
           f (dropWhile is_space (dropWhile is_operator s))"
proof -
  define k2 :: "mstate \<Rightarrow> 'a option" where
    "k2 = (\<lambda>(p', s', c'). if length s' = length s then None else f s')"
  have k2_rej: "\<And>p d t c. is_operator d \<or> is_space d \<Longrightarrow> k2 (p, d # t, c) = None"
    by (simp add: k2_def f)
  define k1 :: "mstate \<Rightarrow> 'a option" where "k1 = (\<lambda>st. matcher (Star is_space) st k2)"
  have k1: "k1 (p, t, c) = k2 (last_of p (takeWhile is_space t), dropWhile is_space t, c)"
    for p t c
    unfolding k1_def by (rule matcher_star_longest) (simp add: k2_rej)
  have k1_rej: "\<And>p d t. is_operator d \<Longrightarrow> k1 (p, d # t, c) = None"
    by (simp add: k1 operator_not_space k2_rej)
  have "matcher (Cap 1 (Seq (Star is_operator) (Star is_space))) (p, s, c)
          (\<lambda>(p', s', c'). if length s' = length s then None else k (p', s', c')) =
        matcher (Star is_operator) (p, s, c) k1"
    by (simp add: k1_def k2_def k del: matcher.simps(3) cong: if_cong)
  also have "\<dots> = k1 (last_of p (takeWhile is_operator s), dropWhile is_operator s, c)"
    using k1_rej by (rule matcher_star_longest)
  also have "\<dots> = (if length (dropWhile is_space (dropWhile is_operator s)) = length s then None
                   else f (dropWhile is_space (dropWhile is_operator s)))"
    by (simp add: k1 k2_def)
  finally have inner: "matcher (Cap 1 (Seq (Star is_operator) (Star is_space))) (p, s, c)
          (\<lambda>(p', s', c'). if length s' = length s then None else k (p', s', c')) =
        (if length (dropWhile is_space (dropWhile is_operator s)) = length s then None
         else f (dropWhile is_space (dropWhile is_operator s)))" .
  have "matcher (Opt (Cap 1 (Seq (Star is_operator) (Star is_space)))) (p, s, c) k =
        (case (if length (dropWhile is_space (dropWhile is_operator s)) = length s then None
               else f (dropWhile is_space (dropWhile is_operator s))) of
           Some r \<Rightarrow> Some r
         | None \<Rightarrow> f s)"
    unfolding inner [symmetric] by (simp add: k cong: option.case_cong)
  also have "\<dots> = f (dropWhile is_space (dropWhile is_operator s))"
  proof (cases "dropWhile is_space (dropWhile is_operator s) = s")
    case True
    then show ?thesis by (simp split: option.splits)
  next
    case False
    then obtain d t where "s = d # t" and "is_space d \<or> is_operator d"
      using dropWhile_changes by blast
    then have "f s = None" using f by auto
    moreover have "length (dropWhile is_space (dropWhile is_operator s)) \<noteq> length s"
      using False dropWhile_twice_same_length by blast
    ultimately show ?thesis by (simp split: option.splits)
  qed
  finally show ?thesis .
qed

lemma version_number_at_not_digit: "\<not> is_digit d \<Longrightarrow> version_number_at (d # t) = None"
  by (simp add: version_number_at_def)

lemma operator_space_not_digit: "is_operator d \<or> is_space d \<Longrightarrow> \<not> is_digit d"
  by (auto simp: is_operator_def is_space_def is_line_terminator_def is_digit_def)

lemma matcher_version:
  "matcher (Cap 0 version_re) (prev, s, c0) (\<lambda>(_, _, caps). Some (caps 2)) =
   map_option Some (version_at s)"
proof -
  define kt :: "mstate \<Rightarrow> jsstring option option" where
    "kt = (\<lambda>st. matcher
             (Seq (Cap 2 (Seq (plus_re is_digit)
                         (Seq dot_number_re
                         (Seq (Opt dot_number_re) (Opt dot_number_re)))))
                  (Chars is_quote))
             st (\<lambda>(_, _, caps). Some (caps 2)))"
  have kt: "kt (p, t, c) = map_option Some (version_number_at t)" for p t c
    unfolding kt_def by (rule matcher_version_number)
  define ko :: "mstate \<Rightarrow> jsstring option option" where
    "ko = (\<lambda>st. matcher (Opt (Cap 1 (Seq (Star is_operator) (Star is_space)))) st kt)"
  have ko: "ko (p, t, c) =
      map_option Some (version_number_at (dropWhile is_space (dropWhile is_operator t)))"
    for p t c
    unfolding ko_def
    by (rule matcher_opt_operator [where f = "\<lambda>t. map_option Some (version_number_at t)"])
       (simp_all add: kt version_number_at_not_digit operator_space_not_digit)
  define kq :: "mstate \<Rightarrow> jsstring option option" where
    "kq = (\<lambda>st. matcher (Chars is_quote) st ko)"
  have kq_rej: "\<And>p d t. is_space d \<Longrightarrow> kq (p, d # t, c0) = None"
    by (simp add: kq_def space_not_quote)
  have front: "matcher (Cap 0 version_re) (prev, s, c0) (\<lambda>(_, _, caps). Some (caps 2)) =
      (case s of
         q1 # comma # s1 \<Rightarrow>
           if is_quote q1 \<and> comma = 44 then matcher (Star is_space) (Some comma, s1, c0) kq
           else None
       | _ \<Rightarrow> None)"
    by (simp add: version_re_def kq_def ko_def kt_def del: matcher.simps(3) matcher.simps(6)
          split: list.splits)
  show ?thesis
  proof (cases s)
    case Nil
    then show ?thesis unfolding front by (simp add: version_at_def)
  next
    case (Cons q1 s0)
    show ?thesis
    proof (cases s0)
      case Nil
      then show ?thesis unfolding front by (simp add: version_at_def Cons)
    next
      case s0: (Cons comma s1)
      have st: "matcher (Star is_space) (p, s1, c0) kq =
            kq (last_of p (takeWhile is_space s1), dropWhile is_space s1, c0)" for p
        using kq_rej by (rule matcher_star_longest)
      have kq: "kq (p, t, c0) =
            (case t of [] \<Rightarrow> None | q2 # s2 \<Rightarrow> if is_quote q2 then ko (Some q2, s2, c0) else None)"
        for p t by (simp add: kq_def)
      have "(case s of
               q1 # comma # s1 \<Rightarrow>
                 if is_quote q1 \<and> comma = 44
                 then matcher (Star is_space) (Some comma, s1, c0) kq
                 else None
             | _ \<Rightarrow> None) = map_option Some (version_at s)"
      proof (cases "dropWhile is_space s1")
        case Nil
        show ?thesis
          by (simp add: Cons s0 version_at_def st kq ko Nil del: matcher.simps)
      next
        case ws: (Cons q2 s2)
        show ?thesis
          by (simp add: Cons s0 version_at_def st kq ko ws del: matcher.simps)
      qed
      with front show ?thesis by (rule trans)
    qed
  qed
qed

lemma exec_version:
  "map_option (\<lambda>(i, caps). caps 2) (exec version_re line) =
   map_option Some (first_match version_at line)"
  unfolding exec_def first_match_map [symmetric]
  by (rule exec_from_first_match) (rule matcher_version)

lemma gem_name_capture:
  "(case exec gem_name_re line of None \<Rightarrow> None | Some (_, match) \<Rightarrow> Some (match 1)) =
   map_option Some (first_match gem_name_at line)"
  using exec_gem_name [of line]
  by (cases "first_match gem_name_at line") (auto split: option.splits)

lemma version_capture:
  "(case exec version_re line of None \<Rightarrow> None | Some (_, versionMatch) \<Rightarrow> versionMatch 2) =
   first_match version_at line"
  using exec_version [of line]
  by (cases "first_match version_at line") (auto split: option.splits)

lemma after_name_capture:
  "(case exec (after_name_re name) line of
      Some (_, afterGemMatch) \<Rightarrow> (case afterGemMatch 1 of Some text \<Rightarrow> text | None \<Rightarrow> [])
    | None \<Rightarrow> []) =
   (case first_match (after_name_at name) line of Some a \<Rightarrow> a | None \<Rightarrow> [])"
  using exec_after_name [of name line]
  by (cases "first_match (after_name_at name) line") (auto split: option.splits)

lemma parseGemLine_unfold:
  "parseGemLine line =
     (let alt = alt_source_from False line
      in case first_match gem_name_at line of
           None \<Rightarrow> \<lparr>gemName = None, currentVersion = None, hasAltSource = False\<rparr>
         | Some name \<Rightarrow>
             \<lparr>gemName = Some name,
              currentVersion = first_match version_at line,
              hasAltSource = alt\<rparr>)"
  using gem_name_capture [of line]
  by (cases "first_match gem_name_at line") (auto simp: parseGemLine_def test_alt_source version_capture Let_def split: option.splits)

lemma buildGemLine_unfold:
  "buildGemLine originalLine name version =
     (let indent = takeWhile is_space originalLine;
          quote = (if includes_str originalLine ([39] @ name @ [39]) then 39 else 34);
          afterGem = (case first_match (after_name_at name) originalLine of
                        Some a \<Rightarrow> a
                      | None \<Rightarrow> []);
          afterGem = strip_constraint afterGem;
          newLine = indent @ str ''gem '' @ [quote] @ name @ [quote] @ str '', '' @
                    [quote] @ str ''~> '' @ version @ [quote]
      in if length (trim afterGem) > 0 then newLine @ trimEnd afterGem else newLine)"
  by (simp add: buildGemLine_def exec_indent after_name_capture replace_constraint Let_def)

section \<open>Evaluating the model on concrete lines\<close>

lemmas char_eval =
  is_space_def is_line_terminator_def is_quote_def is_digit_def is_word_def is_operator_def

lemmas string_eval =
  str_def startsWith_def trim_def trimStart_def trimEnd_def indexOf_def includes_str_def

lemmas parse_eval =
  is_gem_line_def parseGemLine_unfold gem_name_at_def version_at_def version_number_at_def
  dot_digits_def alt_source_markers_def

lemmas build_eval = buildGemLine_unfold after_name_at_def strip_constraint_def

section \<open>Properties of the orchestrator\<close>

lemma update_lines_length: "length (fst (update_lines env w lines)) = length lines"
proof (induction lines arbitrary: w)
  case Nil
  then show ?case by simp
next
  case (Cons line lines)
  obtain newLine w1 where step: "update_line env w line = (newLine, w1)"
    by (cases "update_line env w line")
  obtain updatedLines w2 where rest: "update_lines env w1 lines = (updatedLines, w2)"
    by (cases "update_lines env w1 lines")
  from Cons.IH [of w1] rest have "length updatedLines = length lines" by simp
  with step rest show ?case by simp
qed

lemma update_lines_nth:
  "i < length lines \<Longrightarrow>
   \<exists>w'. fst (update_lines env w lines) ! i = fst (update_line env w' (lines ! i))"
proof (induction lines arbitrary: w i)
  case Nil
  then show ?case by simp
next
  case (Cons line lines)
  obtain newLine w1 where step: "update_line env w line = (newLine, w1)"
    by (cases "update_line env w line")
  obtain updatedLines w2 where rest: "update_lines env w1 lines = (updatedLines, w2)"
    by (cases "update_lines env w1 lines")
  show ?case
  proof (cases i)
    case 0
    with step rest have "fst (update_lines env w (line # lines)) ! i = fst (update_line env w line)"
      by simp
    then show ?thesis using 0 by auto
  next
    case (Suc j)
    with Cons.prems have "j < length lines" by simp
    from Cons.IH [OF this, of w1] obtain w' where
      "fst (update_lines env w1 lines) ! j = fst (update_line env w' (lines ! j))" by blast
    with step rest Suc show ?thesis by auto
  qed
qed


lemma update_line_alt_source:
  "hasAltSource (parseGemLine line) \<Longrightarrow> update_line env w line = (line, w)"
  by (simp add: update_line_def Let_def split: option.splits)

lemma update_line_marker:
  "test alt_source_re line \<Longrightarrow> update_line env w line = (line, w)"
  by (cases "first_match gem_name_at line")
     (simp_all add: update_line_def parseGemLine_unfold test_alt_source Let_def)

lemma gem_name_at_not_Nil: "gem_name_at s = Some name \<Longrightarrow> name \<noteq> []"
  by (auto simp: gem_name_at_def Let_def split: if_splits list.splits)

lemma first_match_gem_name_not_Nil: "first_match gem_name_at s = Some name \<Longrightarrow> name \<noteq> []"
  by (induction s) (auto split: option.splits dest: gem_name_at_not_Nil)

lemma parseGemLine_name_not_Nil: "gemName (parseGemLine line) = Some name \<Longrightarrow> name \<noteq> []"
  by (auto simp: parseGemLine_unfold Let_def split: option.splits dest: first_match_gem_name_not_Nil)

lemma no_usable_history:
  assumes "outcome = RequestError \<or> outcome = RequestTimeout \<or>
           (\<exists>status body. outcome = Response status body \<and>
              (status \<noteq> 200 \<or> body = None \<or>
               (\<exists>versions. body = Some versions \<and> filter (\<lambda>v. \<not> prerelease v) versions = [])))"
  shows "fetchLatestVersionInfo outcome = None"
  using assms by (auto simp: fetchLatestVersionInfo_def stable_info_def)

text \<open>
  Claim C4. For a declaration line without an alternate source, when the request for
  its name ends in an error, a timeout, a status other than 200, a body that cannot be
  read, or a history with no non-prerelease record, the loop body pushes the line
  itself, and the loop goes on with the remaining lines from the world the request left.
\<close>

theorem skip_without_history:
  assumes "is_gem_line line"
    and "gemName (parseGemLine line) = Some name"
    and "\<not> hasAltSource (parseGemLine line)"
    and "request env w name = (outcome, w1)"
    and "outcome = RequestError \<or> outcome = RequestTimeout \<or>
         (\<exists>status body. outcome = Response status body \<and>
            (status \<noteq> 200 \<or> body = None \<or>
             (\<exists>versions. body = Some versions \<and> filter (\<lambda>v. \<not> prerelease v) versions = [])))"
  shows "update_line env w line = (line, w1) \<and>
         update_lines env w (line # lines) =
           (line # fst (update_lines env w1 lines), snd (update_lines env w1 lines))"
proof -
  have "fetchLatestVersionInfo outcome = None" using assms(5) by (rule no_usable_history)
  with assms(1-4) parseGemLine_name_not_Nil [OF assms(2)]
  have "update_line env w line = (line, w1)"
    by (simp add: update_line_def Let_def)
  then show ?thesis by (simp split: prod.splits)
qed

theorem skip_without_history_witness:
  \<open>update_line
     \<lparr>request = \<lambda>w name.
        (Response 200 (Some [\<lparr>number = str ''2.0.0.rc1'', prerelease = True,
                               created_at = Some 5\<rparr>]), Suc w),
      clock = \<lambda>w. (0, w)\<rparr>
     0 (str ''gem "foo", "1.0"'') = (str ''gem "foo", "1.0"'', 1)\<close>
proof -
  let ?env = "\<lparr>request = \<lambda>w name.
        (Response 200 (Some [\<lparr>number = str ''2.0.0.rc1'', prerelease = True,
                               created_at = Some 5\<rparr>]), Suc w),
      clock = \<lambda>w. (0::int, w)\<rparr>"
  have 1: \<open>is_gem_line (str ''gem "foo", "1.0"'')\<close>
    by (simp add: char_eval string_eval parse_eval)
  have 2: \<open>parseGemLine (str ''gem "foo", "1.0"'') =
      \<lparr>gemName = Some (str ''foo''), currentVersion = Some (str ''1.0''), hasAltSource = False\<rparr>\<close>
    by (simp add: char_eval string_eval parse_eval)
  show ?thesis
    using skip_without_history [of \<open>str ''gem "foo", "1.0"''\<close> "str ''foo''" ?env 0
        "Response 200 (Some [\<lparr>number = str ''2.0.0.rc1'', prerelease = True,
                               created_at = Some 5\<rparr>])" 1 "[]"]
    by (simp add: 1 2)
qed



text \<open>
  Claim C9. A line for which \<^verbatim>\<open>parseGemLine\<close> sets \<open>hasAltSource\<close> is pushed as it is,
  and the loop body leaves the world as it found it, whatever the request would do: no
  request is made for it.
\<close>

theorem alt_source_line_unchanged:
  assumes "i < length lines" and "hasAltSource (parseGemLine (lines ! i))"
  shows "fst (update_lines env w lines) ! i = lines ! i \<and>
         (\<forall>w'. update_line env w' (lines ! i) = (lines ! i, w'))"
proof -
  from update_lines_nth [OF assms(1), of env w] obtain w' where
    "fst (update_lines env w lines) ! i = fst (update_line env w' (lines ! i))" by blast
  then show ?thesis by (simp add: update_line_alt_source [OF assms(2)])
qed

theorem alt_source_line_unchanged_witness:
  \<open>fst (update_lines \<lparr>request = \<lambda>w name. (RequestError, Suc w), clock = \<lambda>w. (0, w)\<rparr> (0::nat)
          [str ''source x'', str ''gem "foo", git: "x"'']) ! 1 =
   str ''gem "foo", git: "x"''\<close>
proof -
  have \<open>hasAltSource (parseGemLine (str ''gem "foo", git: "x"''))\<close>
    by (simp add: char_eval string_eval parse_eval)
  then show ?thesis
    using alt_source_line_unchanged [of 1 \<open>[str ''source x'', str ''gem "foo", git: "x"'']\<close>
        "\<lparr>request = \<lambda>w name. (RequestError, Suc w), clock = \<lambda>w. (0, w)\<rparr>" "0::nat"]
    by (simp del: update_lines.simps)
qed

section \<open>Properties of the rebuilder\<close>

lemma not_space_g: "\<not> is_space 103" and not_space_comma: "\<not> is_space 44"
  by (simp_all add: char_eval)

lemma quote_not_terminator: "is_quote c \<Longrightarrow> \<not> is_line_terminator c"
  by (auto simp: char_eval)

lemma takeWhile_all: "\<forall>c\<in>set xs. P c \<Longrightarrow> ys = [] \<or> \<not> P (hd ys) \<Longrightarrow> takeWhile P (xs @ ys) = xs"
  by (cases ys) (auto simp: takeWhile_append2)

lemma dropWhile_all: "\<forall>c\<in>set xs. P c \<Longrightarrow> ys = [] \<or> \<not> P (hd ys) \<Longrightarrow> dropWhile P (xs @ ys) = ys"
  by (cases ys) (auto simp: dropWhile_append2)

lemma first_match_skip:
  assumes "\<forall>c\<in>set ws. is_space c" and "\<And>c s. is_space c \<Longrightarrow> m (c # s) = None"
  shows "first_match m (ws @ s) = first_match m s"
  using assms(1) by (induction ws) (simp_all add: assms(2))

lemma after_name_at_space: "is_space c \<Longrightarrow> after_name_at name (c # s) = None"
  by (auto simp: after_name_at_def startsWith_def str_gem not_space_g)

lemma first_match_hit: "m s = Some r \<Longrightarrow> first_match m s = Some r"
  by (cases s) simp_all

lemma after_name_at_declaration:
  assumes "W1 \<noteq> []" and "\<forall>c\<in>set W1. is_space c" and "is_quote q1" and "is_quote q2"
    and "\<forall>c\<in>set W2. is_space c" and "A = [] \<or> \<not> is_space (hd A)"
  shows "after_name_at name (str ''gem'' @ W1 @ [q1] @ name @ [q2] @ W2 @ A) =
           Some (takeWhile (\<lambda>c. \<not> is_line_terminator c) A)"
proof -
  have tw: "takeWhile is_space (W1 @ q1 # name @ q2 # W2 @ A) = W1"
    using assms(2,3) by (intro takeWhile_all) (simp_all add: quote_not_space)
  have dw: "dropWhile is_space (W1 @ q1 # name @ q2 # W2 @ A) = q1 # name @ q2 # W2 @ A"
    using assms(2,3) by (intro dropWhile_all) (simp_all add: quote_not_space)
  have dw2: "dropWhile is_space (W2 @ A) = A"
    using assms(5,6) by (intro dropWhile_all) simp_all
  show ?thesis
    using assms(1,3,4) by (simp add: after_name_at_def Let_def str_gem startsWith_def tw dw dw2)
qed

lemma buildGemLine_declaration:
  assumes "\<forall>c\<in>set I. is_space c"
    and "W1 \<noteq> []" and "\<forall>c\<in>set W1. is_space c" and "is_quote q1" and "is_quote q2"
    and "\<forall>c\<in>set W2. is_space c" and "A = [] \<or> \<not> is_space (hd A)"
    and "l = I @ str ''gem'' @ W1 @ [q1] @ name @ [q2] @ W2 @ A"
    and "q = (if includes_str l ([39] @ name @ [39]) then 39 else 34)"
    and "a = strip_constraint (takeWhile (\<lambda>c. \<not> is_line_terminator c) A)"
  shows "buildGemLine l name version =
           I @ str ''gem '' @ [q] @ name @ [q] @ str '', '' @ [q] @ str ''~> '' @ version @ [q] @
           (if trim a = [] then [] else trimEnd a)"
proof -
  have indent: "takeWhile is_space l = I"
    unfolding assms(8) using assms(1) by (intro takeWhile_all) (simp_all add: str_gem not_space_g)
  have "first_match (after_name_at name) l =
          first_match (after_name_at name) (str ''gem'' @ W1 @ [q1] @ name @ [q2] @ W2 @ A)"
    unfolding assms(8) using assms(1) by (rule first_match_skip) (rule after_name_at_space)
  also have "\<dots> = Some (takeWhile (\<lambda>c. \<not> is_line_terminator c) A)"
    by (intro first_match_hit after_name_at_declaration assms)
  finally have after: "first_match (after_name_at name) l =
      Some (takeWhile (\<lambda>c. \<not> is_line_terminator c) A)" .
  show ?thesis
    by (simp add: buildGemLine_unfold Let_def indent after assms(9,10))
qed

lemma trim_Nil_iff: "trim s = [] \<longleftrightarrow> (\<forall>c\<in>set s. is_space c)"
proof
  assume "trim s = []"
  then have all: "\<forall>c\<in>set (dropWhile is_space s). is_space c"
    by (simp add: trim_def trimEnd_def trimStart_def dropWhile_eq_Nil_conv)
  have "dropWhile is_space s = []"
  proof (rule ccontr)
    assume ne: "dropWhile is_space s \<noteq> []"
    then have "\<not> is_space (hd (dropWhile is_space s))" by (rule hd_dropWhile)
    moreover have "hd (dropWhile is_space s) \<in> set (dropWhile is_space s)" using ne by simp
    ultimately show False using all by blast
  qed
  then show "\<forall>c\<in>set s. is_space c" by (simp add: dropWhile_eq_Nil_conv)
next
  assume "\<forall>c\<in>set s. is_space c"
  then have "dropWhile is_space s = []" by (simp add: dropWhile_eq_Nil_conv)
  then show "trim s = []"
    by (simp only: trim_def trimEnd_def trimStart_def rev.simps dropWhile.simps)
qed

lemma trimEnd_spaces:
  assumes "\<forall>c\<in>set W. is_space c" and "T = [] \<or> \<not> is_space (last T)"
  shows "trimEnd (T @ W) = T"
proof -
  have "dropWhile is_space (rev W @ rev T) = rev T"
    using assms by (intro dropWhile_all) (auto simp: hd_rev)
  then show ?thesis by (simp add: trimEnd_def)
qed

lemma strip_constraint_token:
  assumes "\<forall>c\<in>set W3. is_space c" and "is_quote q3" and "is_quote q4"
    and "\<forall>c\<in>set C. \<not> is_quote c"
  shows "strip_constraint (44 # W3 @ q3 # C @ q4 # rest) = rest"
proof -
  have 1: "dropWhile is_space (W3 @ q3 # C @ q4 # rest) = q3 # C @ q4 # rest"
    using assms(1,2) by (intro dropWhile_all) (simp_all add: quote_not_space)
  have 2: "dropWhile (\<lambda>c. \<not> is_quote c) (C @ q4 # rest) = q4 # rest"
    using assms(3,4) by (intro dropWhile_all) simp_all
  show ?thesis using assms(2) by (simp add: strip_constraint_def 1 2)
qed

lemma buildGemLine_pinned:
  assumes "\<forall>c\<in>set I. is_space c"
    and "W1 \<noteq> []" and "\<forall>c\<in>set W1. is_space c" and "is_quote q1" and "is_quote q2"
    and "\<forall>c\<in>set W2. is_space c"
    and "\<forall>c\<in>set W3. is_space c \<and> \<not> is_line_terminator c"
    and "is_quote q3" and "is_quote q4"
    and "\<forall>c\<in>set C. \<not> is_quote c \<and> \<not> is_line_terminator c"
    and "\<forall>c\<in>set T. \<not> is_line_terminator c" and "T = [] \<or> \<not> is_space (last T)"
    and "\<forall>c\<in>set W4. is_space c"
    and "l = I @ str ''gem'' @ W1 @ [q1] @ name @ [q2] @ W2 @ str '','' @ W3 @ [q3] @ C @ [q4] @
             T @ W4"
    and "q = (if includes_str l ([39] @ name @ [39]) then 39 else 34)"
  shows "buildGemLine l name version =
           I @ str ''gem '' @ [q] @ name @ [q] @ str '', '' @ [q] @ str ''~> '' @ version @ [q] @ T"
proof -
  define A where "A = 44 # W3 @ q3 # C @ q4 # T @ W4"
  define W4' where "W4' = takeWhile (\<lambda>c. \<not> is_line_terminator c) W4"
  have W4': "\<forall>c\<in>set W4'. is_space c"
    using assms(13) unfolding W4'_def by (auto dest: set_takeWhileD)
  have nt: "\<forall>c\<in>set (44 # W3 @ q3 # C @ q4 # T). \<not> is_line_terminator c"
    using assms(7-11) by (auto simp: quote_not_terminator) (simp add: is_line_terminator_def)
  have "takeWhile (\<lambda>c. \<not> is_line_terminator c) ((44 # W3 @ q3 # C @ q4 # T) @ W4) =
          (44 # W3 @ q3 # C @ q4 # T) @ takeWhile (\<lambda>c. \<not> is_line_terminator c) W4"
    by (rule takeWhile_append2) (use nt in blast)
  then have tw: "takeWhile (\<lambda>c. \<not> is_line_terminator c) A = 44 # W3 @ q3 # C @ q4 # T @ W4'"
    by (simp add: A_def W4'_def)
  have "strip_constraint (44 # W3 @ q3 # C @ q4 # (T @ W4')) = T @ W4'"
    using assms(7-10) by (intro strip_constraint_token) auto
  then have strip: "strip_constraint (takeWhile (\<lambda>c. \<not> is_line_terminator c) A) = T @ W4'"
    by (simp only: tw)
  have l: "l = I @ str ''gem'' @ W1 @ [q1] @ name @ [q2] @ W2 @ A"
    by (simp add: assms(14) A_def str_def)
  have A: "A = [] \<or> \<not> is_space (hd A)" by (simp add: A_def not_space_comma)
  have "buildGemLine l name version =
          I @ str ''gem '' @ [q] @ name @ [q] @ str '', '' @ [q] @ str ''~> '' @ version @ [q] @
          (if trim (T @ W4') = [] then [] else trimEnd (T @ W4'))"
    using buildGemLine_declaration [OF assms(1-6) A l assms(15) strip [symmetric]] .
  also have "(if trim (T @ W4') = [] then [] else trimEnd (T @ W4')) = T"
  proof (cases "T = []")
    case True
    then show ?thesis using W4' by (simp add: trim_Nil_iff)
  next
    case False
    with assms(12) have "\<not> is_space (last T)" by simp
    moreover have "last T \<in> set (T @ W4')" using False by simp
    ultimately have "trim (T @ W4') \<noteq> []" unfolding trim_Nil_iff by blast
    then show ?thesis using trimEnd_spaces [OF W4' assms(12)] by simp
  qed
  finally show ?thesis .
qed

text \<open>
  Claim C5, as the code has it. For a pinned declaration
  \<^verbatim>\<open><indent>gem<ws><q>name<q><ws>,<ws><q>constraint<q><tail><ws>\<close> with no line terminator
  in the constraint token or the tail, the rebuilt line keeps the indentation, the name
  and the tail (options, comment) as they are. The white space between the tokens is
  written anew as single spaces, the name and the constraint get one quote character,
  and white space at the end of the line is dropped.
\<close>

theorem rebuild_keeps_indent_name_tail:
  assumes "\<forall>c\<in>set I. is_space c"
    and "W1 \<noteq> []" and "\<forall>c\<in>set W1. is_space c" and "is_quote q1" and "is_quote q2"
    and "\<forall>c\<in>set W2. is_space c"
    and "\<forall>c\<in>set W3. is_space c \<and> \<not> is_line_terminator c"
    and "is_quote q3" and "is_quote q4"
    and "\<forall>c\<in>set C. \<not> is_quote c \<and> \<not> is_line_terminator c"
    and "\<forall>c\<in>set T. \<not> is_line_terminator c" and "T = [] \<or> \<not> is_space (last T)"
    and "\<forall>c\<in>set W4. is_space c"
  shows "\<exists>q. is_quote q \<and>
           buildGemLine
             (I @ str ''gem'' @ W1 @ [q1] @ name @ [q2] @ W2 @ str '','' @ W3 @ [q3] @ C @ [q4] @
              T @ W4) name version =
           I @ str ''gem '' @ [q] @ name @ [q] @ str '', '' @ [q] @ str ''~> '' @ version @ [q] @ T"
proof -
  define l where
    "l = I @ str ''gem'' @ W1 @ [q1] @ name @ [q2] @ W2 @ str '','' @ W3 @ [q3] @ C @ [q4] @ T @ W4"
  define q :: nat where "q = (if includes_str l ([39] @ name @ [39]) then 39 else 34)"
  have "is_quote q" by (simp add: q_def is_quote_def)
  moreover have "buildGemLine l name version =
      I @ str ''gem '' @ [q] @ name @ [q] @ str '', '' @ [q] @ str ''~> '' @ version @ [q] @ T"
    using assms l_def q_def by (rule buildGemLine_pinned)
  ultimately show ?thesis unfolding l_def by blast
qed

theorem rebuild_keeps_indent_name_tail_witness:
  \<open>buildGemLine (str ''  gem "foo", "~> 1.0", require: false  '') (str ''foo'') (str ''2.0'') =
   str ''  gem "foo", "~> 2.0", require: false''\<close>
  using rebuild_keeps_indent_name_tail [of "str ''  ''" "str '' ''" 34 34 "[]" "str '' ''" 34 34
      "str ''~> 1.0''" "str '', require: false''" "str ''  ''" "str ''foo''" "str ''2.0''"]
  by (simp add: char_eval string_eval) (simp add: build_eval char_eval string_eval)

text \<open>
  Claim C5, as stated, fails: a line with two spaces after the keyword and two at its end
  comes back with one space after the keyword and none at the end.
\<close>

theorem rebuild_changes_spacing:
  \<open>is_gem_line (str ''gem  "foo", "1.0"  '') \<and>
   gemName (parseGemLine (str ''gem  "foo", "1.0"  '')) = Some (str ''foo'') \<and>
   buildGemLine (str ''gem  "foo", "1.0"  '') (str ''foo'') (str ''2.0'') =
     str ''gem "foo", "~> 2.0"'' \<and>
   \<not> prefix (str ''gem  "foo"'') (buildGemLine (str ''gem  "foo", "1.0"  '') (str ''foo'') (str ''2.0'')) \<and>
   \<not> suffix (str ''  '') (buildGemLine (str ''gem  "foo", "1.0"  '') (str ''foo'') (str ''2.0''))\<close>
proof -
  have \<open>buildGemLine (str ''gem  "foo", "1.0"  '') (str ''foo'') (str ''2.0'') =
     str ''gem "foo", "~> 2.0"''\<close>
    by (simp add: char_eval string_eval build_eval)
  moreover have \<open>is_gem_line (str ''gem  "foo", "1.0"  '')\<close>
    by (simp add: char_eval string_eval parse_eval)
  moreover have \<open>gemName (parseGemLine (str ''gem  "foo", "1.0"  '')) = Some (str ''foo'')\<close>
    by (simp add: char_eval string_eval parse_eval)
  ultimately show ?thesis by (simp add: str_def suffix_def)
qed

text \<open>
  Claim C6, at a line the code rewrites with another quote character than the one of the
  name's first quoted occurrence: the name is declared between double quotes and occurs
  again between single quotes in an option, and the rebuilt line puts name and version
  between single quotes.
\<close>

theorem quote_style_from_later_occurrence:
  \<open>is_gem_line (str ''gem "foo", require: 'foo', group: :test'') \<and>
   gemName (parseGemLine (str ''gem "foo", require: 'foo', group: :test'')) = Some (str ''foo'') \<and>
   \<not> hasAltSource (parseGemLine (str ''gem "foo", require: 'foo', group: :test'')) \<and>
   buildGemLine (str ''gem "foo", require: 'foo', group: :test'') (str ''foo'') (str ''2.0'') =
     str ''gem 'foo', '~> 2.0', require: 'foo', group: :test''\<close>
proof -
  have \<open>buildGemLine (str ''gem "foo", require: 'foo', group: :test'') (str ''foo'') (str ''2.0'') =
     str ''gem 'foo', '~> 2.0', require: 'foo', group: :test''\<close>
    by (simp add: char_eval string_eval build_eval)
  moreover have \<open>is_gem_line (str ''gem "foo", require: 'foo', group: :test'')\<close>
    by (simp add: char_eval string_eval parse_eval)
  moreover have \<open>parseGemLine (str ''gem "foo", require: 'foo', group: :test'') =
      \<lparr>gemName = Some (str ''foo''), currentVersion = None, hasAltSource = False\<rparr>\<close>
    by (simp add: char_eval string_eval parse_eval)
  ultimately show ?thesis by simp
qed

text \<open>
  Claim C7, as the code has it. A line that already has the form the rebuilder writes
  for the target version, \<^verbatim>\<open><indent>gem <q>name<q>, <q>~> version<q><tail>\<close> with the quote
  character the rebuilder chooses for the line and no white space at its end, is returned
  as it is.
\<close>

theorem rebuild_current_line:
  assumes "\<forall>c\<in>set I. is_space c"
    and "\<forall>c\<in>set version. \<not> is_quote c \<and> \<not> is_line_terminator c"
    and "\<forall>c\<in>set T. \<not> is_line_terminator c" and "T = [] \<or> \<not> is_space (last T)"
    and "l = I @ str ''gem '' @ [q] @ name @ [q] @ str '', '' @ [q] @ str ''~> '' @ version @ [q] @ T"
    and "q = (if includes_str l ([39] @ name @ [39]) then 39 else 34)"
  shows "buildGemLine l name version = l"
proof -
  have q: "is_quote q" by (simp add: assms(6) is_quote_def)
  have C: "\<forall>c\<in>set (str ''~> '' @ version). \<not> is_quote c \<and> \<not> is_line_terminator c"
    using assms(2) by (simp add: str_def char_eval)
  have l: "l = I @ str ''gem'' @ str '' '' @ [q] @ name @ [q] @ [] @ str '','' @ str '' '' @ [q] @
             (str ''~> '' @ version) @ [q] @ T @ []"
    by (simp add: assms(5) str_def)
  have "buildGemLine l name version =
          I @ str ''gem '' @ [q] @ name @ [q] @ str '', '' @ [q] @ str ''~> '' @ version @ [q] @ T"
    by (rule buildGemLine_pinned [OF assms(1) _ _ q q _ _ q q C assms(3,4) _ l assms(6)])
       (simp_all add: str_def char_eval)
  then show ?thesis by (simp only: assms(5))
qed

theorem rebuild_current_line_witness:
  \<open>buildGemLine (str ''  gem 'foo', '~> 2.0', require: false'') (str ''foo'') (str ''2.0'') =
   str ''  gem 'foo', '~> 2.0', require: false''\<close>
  using rebuild_current_line [of "str ''  ''" "str ''2.0''" "str '', require: false''"
      \<open>str ''  gem 'foo', '~> 2.0', require: false''\<close> 39 "str ''foo''"]
  by (simp add: char_eval string_eval)

text \<open>
  Claim C7, as stated, fails: a line pinned to the target version with another operator
  is rewritten to the operator \<^verbatim>\<open>~>\<close>.
\<close>

theorem rebuild_replaces_operator:
  \<open>is_gem_line (str ''gem "foo", ">= 1.0"'') \<and>
   currentVersion (parseGemLine (str ''gem "foo", ">= 1.0"'')) = Some (str ''1.0'') \<and>
   buildGemLine (str ''gem "foo", ">= 1.0"'') (str ''foo'') (str ''1.0'') =
     str ''gem "foo", "~> 1.0"'' \<and>
   buildGemLine (str ''gem "foo", ">= 1.0"'') (str ''foo'') (str ''1.0'') \<noteq>
     str ''gem "foo", ">= 1.0"''\<close>
proof -
  have \<open>buildGemLine (str ''gem "foo", ">= 1.0"'') (str ''foo'') (str ''1.0'') =
     str ''gem "foo", "~> 1.0"''\<close>
    by (simp add: char_eval string_eval build_eval)
  moreover have \<open>is_gem_line (str ''gem "foo", ">= 1.0"'')\<close>
    by (simp add: char_eval string_eval parse_eval)
  moreover have \<open>currentVersion (parseGemLine (str ''gem "foo", ">= 1.0"'')) = Some (str ''1.0'')\<close>
    by (simp add: char_eval string_eval parse_eval)
  ultimately show ?thesis by (simp add: str_def)
qed

section \<open>The content written back\<close>

text \<open>
  \<^verbatim>\<open>update\<close> joins \<^verbatim>\<open>updatedLines\<close> with line feeds. A line of the input has no line
  feed, and a rebuilt line has none unless the version has one; so when no version
  number of the registry holds a line feed, the lines of the written content are
  \<^verbatim>\<open>updatedLines\<close> itself.
\<close>

lemma split_no_sep: "l \<in> set (split sep s) \<Longrightarrow> sep \<notin> set l"
proof (induction s arbitrary: l)
  case Nil
  then show ?case by simp
next
  case (Cons c cs)
  obtain p ps where sp: "split sep cs = p # ps"
    using split_not_Nil [of sep cs] by (cases "split sep cs") auto
  show ?case
  proof (cases "c = sep")
    case True
    with Cons show ?thesis by auto
  next
    case False
    with Cons.prems sp have "l = c # p \<or> l \<in> set ps" by simp
    moreover have "sep \<notin> set p" using Cons.IH [of p] sp by simp
    moreover have "l \<in> set ps \<Longrightarrow> sep \<notin> set l" using Cons.IH [of l] sp by simp
    ultimately show ?thesis using False by auto
  qed
qed

lemma split_no_sep_id: "sep \<notin> set l \<Longrightarrow> split sep l = [l]"
  by (induction l) auto

lemma split_append_sep:
  "sep \<notin> set l \<Longrightarrow> split sep (l @ sep # s) = l # split sep s"
  by (induction l) auto

lemma split_join:
  "ls \<noteq> [] \<Longrightarrow> \<forall>l\<in>set ls. sep \<notin> set l \<Longrightarrow> split sep (join sep ls) = ls"
proof (induction sep ls rule: join.induct)
  case (1 sep)
  then show ?case by simp
next
  case (2 sep p)
  then show ?case by (simp add: split_no_sep_id)
next
  case (3 sep p q ps)
  then show ?case by (simp add: split_append_sep)
qed

lemma first_match_subset:
  assumes "\<And>t r. f t = Some r \<Longrightarrow> set r \<subseteq> set t"
  shows "first_match f s = Some r \<Longrightarrow> set r \<subseteq> set s"
proof (induction s)
  case Nil
  then show ?case using assms [of "[]" r] by simp
next
  case (Cons c cs)
  show ?case
  proof (cases "f (c # cs)")
    case None
    with Cons show ?thesis by auto
  next
    case (Some r')
    with Cons.prems have "r' = r" by simp
    with Some assms show ?thesis by blast
  qed
qed

lemma dropWhile_drop_subset: "dropWhile P (drop n t) = q # s2 \<Longrightarrow> set s2 \<subseteq> set t"
proof -
  assume a: "dropWhile P (drop n t) = q # s2"
  have "set (dropWhile P (drop n t)) \<subseteq> set t"
    by (auto dest: set_dropWhileD in_set_dropD)
  then show ?thesis unfolding a by simp
qed

lemma gem_name_at_subset: "gem_name_at t = Some r \<Longrightarrow> set r \<subseteq> set t"
proof (cases "dropWhile is_space (drop 3 t)")
  case Nil
  assume "gem_name_at t = Some r"
  then show ?thesis by (simp add: gem_name_at_def Nil Let_def split: if_splits)
next
  case (Cons q s2)
  assume "gem_name_at t = Some r"
  then have r: "r = takeWhile (\<lambda>c. \<not> is_quote c) s2"
    by (simp add: gem_name_at_def Cons Let_def split: if_splits list.splits)
  have "set s2 \<subseteq> set t" using Cons by (rule dropWhile_drop_subset)
  then show ?thesis unfolding r by (auto dest: set_takeWhileD)
qed

lemma version_number_at_digits:
  "version_number_at t = Some r \<Longrightarrow> 10 \<notin> set r"
proof -
  assume a: "version_number_at t = Some r"
  have dd: "10 \<notin> set (take (dot_digits u) u)" for u
  proof (cases u)
    case Nil
    then show ?thesis by simp
  next
    case (Cons c cs)
    have "10 \<notin> set (takeWhile is_digit cs)"
      by (auto dest: set_takeWhileD simp: is_digit_def)
    moreover have "take (length (takeWhile is_digit cs)) cs = takeWhile is_digit cs"
      by (metis append_eq_conv_conj takeWhile_dropWhile_id)
    ultimately show ?thesis by (simp add: Cons dot_digits_def)
  qed
  have tw: "10 \<notin> set (takeWhile is_digit u)" for u
    by (auto dest: set_takeWhileD simp: is_digit_def)
  from a show ?thesis
    by (auto simp: version_number_at_def Let_def dd tw split: if_splits list.splits)
qed

lemma version_at_no_newline: "version_at t = Some r \<Longrightarrow> 10 \<notin> set r"
  by (auto simp: version_at_def split: list.splits if_splits dest: version_number_at_digits)

lemma first_match_version_no_newline: "first_match version_at s = Some r \<Longrightarrow> 10 \<notin> set r"
  by (induction s) (auto split: option.splits dest: version_at_no_newline)

lemma after_name_at_subset: "after_name_at name t = Some r \<Longrightarrow> set r \<subseteq> set t"
proof (cases "dropWhile is_space (drop 3 t)")
  case Nil
  assume "after_name_at name t = Some r"
  then show ?thesis by (simp add: after_name_at_def Nil Let_def split: if_splits)
next
  case (Cons q s2)
  assume a: "after_name_at name t = Some r"
  have s2: "set s2 \<subseteq> set t" using Cons by (rule dropWhile_drop_subset)
  show ?thesis
  proof (cases "drop (length name) s2")
    case Nil
    with a show ?thesis by (simp add: after_name_at_def Cons Let_def split: if_splits)
  next
    case s3: (Cons q' s3)
    from a have r: "r = takeWhile (\<lambda>c. \<not> is_line_terminator c) (dropWhile is_space s3)"
      by (simp add: after_name_at_def Cons s3 Let_def split: if_splits)
    have "set (drop (length name) s2) \<subseteq> set s2" by (rule set_drop_subset)
    then have "set s3 \<subseteq> set t" using s2 unfolding s3 by auto
    then show ?thesis unfolding r by (auto dest: set_takeWhileD set_dropWhileD)
  qed
qed

lemma dropWhile_Cons_subset: "dropWhile P t = q # s2 \<Longrightarrow> set s2 \<subseteq> set t"
  using dropWhile_drop_subset [of P 0 t q s2] by simp

lemma strip_constraint_subset: "set (strip_constraint s) \<subseteq> set s"
proof (cases s)
  case Nil
  then show ?thesis by (simp add: strip_constraint_def)
next
  case s: (Cons c s1)
  show ?thesis
  proof (cases "dropWhile is_space s1")
    case Nil
    show ?thesis by (simp add: strip_constraint_def s Nil)
  next
    case ws: (Cons q s2)
    have s2: "set s2 \<subseteq> set s1" using ws by (rule dropWhile_Cons_subset)
    show ?thesis
    proof (cases "dropWhile (\<lambda>c. \<not> is_quote c) s2")
      case Nil
      show ?thesis by (simp add: strip_constraint_def s ws Nil)
    next
      case (Cons x s3)
      have "set s3 \<subseteq> set s2" using Cons by (rule dropWhile_Cons_subset)
      then show ?thesis using s2 by (auto simp: strip_constraint_def s ws Cons)
    qed
  qed
qed

lemma trimEnd_subset: "set (trimEnd s) \<subseteq> set s"
  by (auto simp: trimEnd_def dest: set_dropWhileD)

lemma buildGemLine_no_newline:
  assumes "10 \<notin> set l" and "10 \<notin> set name" and "10 \<notin> set version"
  shows "10 \<notin> set (buildGemLine l name version)"
proof -
  have 1: "10 \<notin> set (takeWhile is_space l)" using assms(1) by (auto dest: set_takeWhileD)
  have "set a \<subseteq> set l" if "first_match (after_name_at name) l = Some a" for a
    using that after_name_at_subset by (rule first_match_subset [rotated])
  then have "set (case first_match (after_name_at name) l of Some a \<Rightarrow> a | None \<Rightarrow> []) \<subseteq> set l"
    by (cases "first_match (after_name_at name) l") auto
  then have 2: "10 \<notin> set (trimEnd (strip_constraint
      (case first_match (after_name_at name) l of Some a \<Rightarrow> a | None \<Rightarrow> [])))"
    using assms(1) trimEnd_subset strip_constraint_subset by blast
  show ?thesis using 1 2 assms(2,3)
    by (simp add: buildGemLine_unfold Let_def str_def)
qed

lemma stable_info_latest:
  "stable_info versions = Some info \<Longrightarrow> \<exists>v\<in>set versions. latest info = number v"
proof -
  assume a: "stable_info versions = Some info"
  show ?thesis
  proof (cases "filter (\<lambda>v. \<not> prerelease v) versions")
    case Nil
    with a show ?thesis by (simp add: stable_info_def)
  next
    case (Cons l rest)
    have "l \<in> set (filter (\<lambda>v. \<not> prerelease v) versions)" by (simp add: Cons)
    then have "l \<in> set versions" by simp
    moreover have "latest info = number l"
      using a by (auto simp: stable_info_Cons [OF Cons] Let_def split: if_splits)
    ultimately show ?thesis by blast
  qed
qed

lemma determine_result:
  "determineTargetVersion today cv lv d = lv \<or> cv = Some (determineTargetVersion today cv lv d)"
  by (cases cv) (auto simp: determineTargetVersion_def Let_def)

lemma update_line_no_newline:
  assumes numbers: "\<And>w name status versions w' v.
      request env w name = (Response status (Some versions), w') \<Longrightarrow> v \<in> set versions \<Longrightarrow>
      10 \<notin> set (number v)"
    and line: "10 \<notin> set line"
  shows "10 \<notin> set (fst (update_line env w line))"
proof (cases "fst (update_line env w line) = line")
  case True
  with line show ?thesis by simp
next
  case False
  then obtain name outcome w1 info today w2 where
    name: "gemName (parseGemLine line) = Some name"
    and req: "request env w name = (outcome, w1)"
    and info: "fetchLatestVersionInfo outcome = Some info"
    and out: "fst (update_line env w line) =
        buildGemLine line name
          (determineTargetVersion today (currentVersion (parseGemLine line))
             (latest info) (majorReleaseDate info))"
    by (auto simp: update_line_def Let_def split: if_splits option.splits prod.splits)
  from info obtain status versions where outcome: "outcome = Response status (Some versions)"
    and st: "stable_info versions = Some info"
    by (auto simp: fetchLatestVersionInfo_def split: http_outcome.splits if_splits option.splits)
  from stable_info_latest [OF st] obtain v where "v \<in> set versions" "latest info = number v"
    by blast
  with numbers [of w name status versions w1 v] req outcome
  have latest: "10 \<notin> set (latest info)" by simp
  have nm: "10 \<notin> set name"
  proof -
    from name have "first_match gem_name_at line = Some name"
      by (auto simp: parseGemLine_unfold Let_def split: option.splits)
    then have "set name \<subseteq> set line" using gem_name_at_subset by (rule first_match_subset [rotated])
    with line show ?thesis by blast
  qed
  have cv: "10 \<notin> set c" if "currentVersion (parseGemLine line) = Some c" for c
  proof -
    from that have "first_match version_at line = Some c"
      by (auto simp: parseGemLine_unfold Let_def split: option.splits)
    then show ?thesis by (rule first_match_version_no_newline)
  qed
  have "10 \<notin> set (determineTargetVersion today (currentVersion (parseGemLine line))
             (latest info) (majorReleaseDate info))"
    using determine_result [of today "currentVersion (parseGemLine line)" "latest info"
        "majorReleaseDate info"] latest cv
    by (metis)
  with line nm show ?thesis unfolding out by (rule buildGemLine_no_newline)
qed

lemma update_lines_no_newline:
  assumes numbers: "\<And>w name status versions w' v.
      request env w name = (Response status (Some versions), w') \<Longrightarrow> v \<in> set versions \<Longrightarrow>
      10 \<notin> set (number v)"
    and lines: "\<forall>l\<in>set lines. 10 \<notin> set l"
  shows "\<forall>l\<in>set (fst (update_lines env w lines)). 10 \<notin> set l"
  using lines
proof (induction lines arbitrary: w)
  case Nil
  then show ?case by simp
next
  case (Cons line lines)
  obtain newLine w1 where step: "update_line env w line = (newLine, w1)"
    by (cases "update_line env w line")
  obtain updatedLines w2 where rest: "update_lines env w1 lines = (updatedLines, w2)"
    by (cases "update_lines env w1 lines")
  have "10 \<notin> set newLine"
    using update_line_no_newline [of env line w, OF numbers] Cons.prems step by simp
  moreover have "\<forall>l\<in>set updatedLines. 10 \<notin> set l"
    using Cons.IH [of w1] Cons.prems rest by simp
  ultimately show ?case using step rest by simp
qed

lemma update_writes_the_lines:
  assumes "\<And>w name status versions w' v.
      request env w name = (Response status (Some versions), w') \<Longrightarrow> v \<in> set versions \<Longrightarrow>
      10 \<notin> set (number v)"
  shows "split 10 (fst (update env w content)) = fst (update_lines env w (split 10 content))"
proof -
  obtain updatedLines w' where run: "update_lines env w (split 10 content) = (updatedLines, w')"
    by (cases "update_lines env w (split 10 content)")
  have "length updatedLines = length (split 10 content)"
    using update_lines_length [of env w "split 10 content"] run by simp
  then have ne: "updatedLines \<noteq> []" using split_not_Nil [of 10 content] by auto
  have "\<forall>l\<in>set (split 10 content). 10 \<notin> set l" using split_no_sep by blast
  then have "\<forall>l\<in>set updatedLines. 10 \<notin> set l"
    using update_lines_no_newline [of env "split 10 content" w, OF assms] run by simp
  then have "split 10 (join 10 updatedLines) = updatedLines" using ne by (simp add: split_join)
  then show ?thesis by (simp add: update_def run)
qed

end
